theory Spec2Isabelle
  imports Main
begin

section \<open>Machine integers and bytes\<close>

text \<open>
  Bytes of buffers and files are \<^typ>\<open>char\<close> (8 bits each), so the text written by the
  key snapshot reads as a string. C's unsigned 32-bit and 64-bit values are natural
  numbers, the wrap-around written out where the source computes with them.
\<close>

type_synonym byte = char

text \<open>The conversion of a C \<open>int\<close> to \<open>uint32_t\<close> (the usual arithmetic conversions).\<close>

definition u32 :: "int \<Rightarrow> nat" where
  "u32 i = nat (i mod 2 ^ 32)"

definition NUL :: byte where
  "NUL = CHR 0x00"

definition NL :: byte where
  "NL = CHR 0x0A"

text \<open>What \<open>sprintf("%u")\<close> and \<open>"%PRIu64"\<close> print: the decimal digits of a number.\<close>

definition digit_char :: "nat \<Rightarrow> char" where
  "digit_char d =
     (if d = 0 then CHR ''0'' else if d = 1 then CHR ''1'' else if d = 2 then CHR ''2''
      else if d = 3 then CHR ''3'' else if d = 4 then CHR ''4'' else if d = 5 then CHR ''5''
      else if d = 6 then CHR ''6'' else if d = 7 then CHR ''7'' else if d = 8 then CHR ''8''
      else CHR ''9'')"

fun decimal :: "nat \<Rightarrow> string" where
  "decimal n = (if n < 10 then [digit_char n] else decimal (n div 10) @ [digit_char (n mod 10)])"

declare decimal.simps [simp del]

section \<open>The operating system, as far as the snapshot code calls it\<close>

text \<open>
  A read, a write, an open or an fsync can fail or come back short for reasons outside
  the program. The field \<open>io\<close> lists the outcomes of the forthcoming calls, one per call;
  once the list is used up every call goes through. The field \<open>short_writes\<close> counts the
  calls of \<open>write\<close> so far that returned something else than the count they were given.
\<close>

datatype io_outcome = IO_ok | IO_short nat | IO_fail

datatype log_level = EXTENSION_LOG_INFO | EXTENSION_LOG_WARNING

text \<open>
  Calls that leave the snapshot code and return nothing it looks at are recorded in the
  order they are made: the item scanner's, the mutex's, the sleep, the thread creation
  and the completion callback. The two entries \<open>E_dump\<close> and \<open>E_done\<close> record that the scan
  loop called the mode's dump function (with the number of items) or its done function.
\<close>

datatype event =
  E_scan_open bool
  | E_scan_getnext
  | E_scan_release int
  | E_scan_close bool bool
  | E_dump int
  | E_done
  | E_mutex_lock
  | E_mutex_unlock
  | E_usleep nat
  | E_thread_create
  | E_callback nat

record open_file =
  f_path :: string
  f_off :: nat

record sys =
  fs :: "string \<Rightarrow> byte list option"
  fdt :: "int \<Rightarrow> open_file option"
  next_fd :: nat
  io :: "io_outcome list"
  clock :: int
  rel_time :: nat
  logged :: "(log_level \<times> string) list"
  trace :: "event list"
  short_writes :: nat

definition next_io :: "sys \<Rightarrow> io_outcome" where
  "next_io s = (case io s of [] \<Rightarrow> IO_ok | x # _ \<Rightarrow> x)"

definition pop_io :: "sys \<Rightarrow> sys" where
  "pop_io s = s\<lparr>io := tl (io s)\<rparr>"

definition logger_log :: "log_level \<Rightarrow> string \<Rightarrow> sys \<Rightarrow> sys" where
  "logger_log lvl msg s = s\<lparr>logged := logged s @ [(lvl, msg)]\<rparr>"

definition emit :: "event \<Rightarrow> sys \<Rightarrow> sys" where
  "emit e s = s\<lparr>trace := trace s @ [e]\<rparr>"

text \<open>\<open>open(path, O_WRONLY | O_CREAT | O_TRUNC, ...)\<close>: the file is created or emptied.\<close>

definition sys_open_trunc :: "string \<Rightarrow> sys \<Rightarrow> int \<times> sys" where
  "sys_open_trunc p s =
     (if next_io s = IO_fail then (- 1, pop_io s)
      else (int (next_fd s),
            (pop_io s)\<lparr>fs := (fs s)(p \<mapsto> []),
                       fdt := (fdt s)(int (next_fd s) \<mapsto> \<lparr>f_path = p, f_off = 0\<rparr>),
                       next_fd := next_fd s + 1\<rparr>))"

text \<open>\<open>open(path, O_RDONLY)\<close>: fails when the file does not exist.\<close>

definition sys_open_rdonly :: "string \<Rightarrow> sys \<Rightarrow> int \<times> sys" where
  "sys_open_rdonly p s =
     (if fs s p = None \<or> next_io s = IO_fail then (- 1, pop_io s)
      else (int (next_fd s),
            (pop_io s)\<lparr>fdt := (fdt s)(int (next_fd s) \<mapsto> \<lparr>f_path = p, f_off = 0\<rparr>),
                       next_fd := next_fd s + 1\<rparr>))"

definition sys_close :: "int \<Rightarrow> sys \<Rightarrow> sys" where
  "sys_close d s = s\<lparr>fdt := (fdt s)(d := None)\<rparr>"

text \<open>The contents of the file behind a descriptor.\<close>

definition fd_content :: "sys \<Rightarrow> int \<Rightarrow> byte list option" where
  "fd_content s d = (case fdt s d of None \<Rightarrow> None | Some f \<Rightarrow> fs s (f_path f))"

text \<open>
  \<open>write(fd, buf, count)\<close> returns the number of bytes written, which is \<open>count\<close> unless
  the call is cut short, or \<open>-1\<close>. The bytes go to the descriptor's offset.
\<close>

definition write_bytes :: "int \<Rightarrow> byte list \<Rightarrow> sys \<Rightarrow> int \<times> sys" where
  "write_bytes d bs s =
     (case fdt s d of
        None \<Rightarrow> (- 1, s)
      | Some f \<Rightarrow>
          (case fs s (f_path f) of
             None \<Rightarrow> (- 1, s)
           | Some c \<Rightarrow>
               (if next_io s = IO_fail then (- 1, pop_io s)
                else
                  (let k = (case next_io s of IO_short m \<Rightarrow> min m (length bs) | _ \<Rightarrow> length bs);
                       w = take k bs
                   in (int k,
                       (pop_io s)\<lparr>fs := (fs s)(f_path f \<mapsto>
                                          take (f_off f) c @ w @ drop (f_off f + k) c),
                                  fdt := (fdt s)(d \<mapsto> f\<lparr>f_off := f_off f + k\<rparr>)\<rparr>)))))"

definition sys_write :: "int \<Rightarrow> byte list \<Rightarrow> sys \<Rightarrow> int \<times> sys" where
  "sys_write d bs s =
     (case write_bytes d bs s of
        (k, s1) \<Rightarrow>
          (k, if k \<noteq> int (length bs) then s1\<lparr>short_writes := short_writes s1 + 1\<rparr> else s1))"

text \<open>\<open>read(fd, buf, count)\<close>: the count read (or \<open>-1\<close>) and the bytes delivered.\<close>

definition sys_read :: "int \<Rightarrow> nat \<Rightarrow> sys \<Rightarrow> int \<times> byte list \<times> sys" where
  "sys_read d n s =
     (case fdt s d of
        None \<Rightarrow> (- 1, [], s)
      | Some f \<Rightarrow>
          (case fs s (f_path f) of
             None \<Rightarrow> (- 1, [], s)
           | Some c \<Rightarrow>
               (if next_io s = IO_fail then (- 1, [], pop_io s)
                else
                  (let k = (case next_io s of IO_short m \<Rightarrow> min m n | _ \<Rightarrow> n);
                       bs = take k (drop (f_off f) c)
                   in (int (length bs), bs,
                       (pop_io s)\<lparr>fdt := (fdt s)(d \<mapsto> f\<lparr>f_off := f_off f + length bs\<rparr>)\<rparr>)))))"

text \<open>\<open>lseek(fd, delta, SEEK_END)\<close>: \<open>-1\<close> when the target offset would be negative.\<close>

definition sys_lseek_end :: "int \<Rightarrow> int \<Rightarrow> sys \<Rightarrow> int \<times> sys" where
  "sys_lseek_end d delta s =
     (case fdt s d of
        None \<Rightarrow> (- 1, s)
      | Some f \<Rightarrow>
          (case fs s (f_path f) of
             None \<Rightarrow> (- 1, s)
           | Some c \<Rightarrow>
               (if int (length c) + delta < 0 then (- 1, s)
                else (int (length c) + delta,
                      s\<lparr>fdt := (fdt s)(d \<mapsto> f\<lparr>f_off := nat (int (length c) + delta)\<rparr>)\<rparr>))))"

text \<open>\<open>lseek(fd, off, SEEK_SET)\<close> for a non-negative offset.\<close>

definition sys_lseek_set :: "int \<Rightarrow> nat \<Rightarrow> sys \<Rightarrow> int \<times> sys" where
  "sys_lseek_set d off s =
     (case fdt s d of
        None \<Rightarrow> (- 1, s)
      | Some f \<Rightarrow> (int off, s\<lparr>fdt := (fdt s)(d \<mapsto> f\<lparr>f_off := off\<rparr>)\<rparr>))"

definition sys_fsync :: "int \<Rightarrow> sys \<Rightarrow> int \<times> sys" where
  "sys_fsync d s =
     (if fdt s d = None then (- 1, s)
      else if next_io s = IO_fail then (- 1, pop_io s)
      else (0, pop_io s))"

section \<open>The snapshot structures\<close>

datatype chkpt_snapshot_mode =
  CHKPT_SNAPSHOT_MODE_KEY | CHKPT_SNAPSHOT_MODE_DATA | CHKPT_SNAPSHOT_MODE_CHKPT
  | CHKPT_SNAPSHOT_MODE_MAX

datatype ENGINE_ERROR_CODE =
  ENGINE_SUCCESS | ENGINE_ENOMEM | ENGINE_EBADVALUE | ENGINE_FAILED | ENGINE_OTHER nat

record snapshot_file =
  path :: string
  fd :: int
  size' :: nat

text \<open>
  \<open>memory\<close> is the block allocated at initialisation, \<open>maxlen\<close> bytes long; the bytes
  before \<open>curlen\<close> are the ones waiting to be written.
\<close>

record snapshot_buffer =
  memory :: "byte list"
  maxlen :: nat
  curlen :: nat

record snapshot_st =
  running :: bool
  success :: bool
  reqstop :: bool
  mode :: chkpt_snapshot_mode
  snapped :: nat
  started :: int
  stopped :: int
  prefix :: "string option"
  nprefix :: int
  file' :: snapshot_file
  buffer :: snapshot_buffer
  cb_snapshot_done :: "nat option"
  initialized :: bool

definition SNAPSHOT_BUFFER_SIZE :: nat where
  "SNAPSHOT_BUFFER_SIZE = 10 * 1024 * 1024"

definition SCAN_ITEM_ARRAY_SIZE :: nat where
  "SCAN_ITEM_ARRAY_SIZE = 16"

section \<open>The snapshot buffer\<close>

text \<open>
  Storing bytes at an offset of the buffer. A store that would run past the end of the
  block is undefined behaviour in C; it is the value \<open>None\<close> here.
\<close>

definition buf_store :: "snapshot_st \<Rightarrow> nat \<Rightarrow> byte list \<Rightarrow> snapshot_st option" where
  "buf_store ss off bs =
     (if off + length bs \<le> length (memory (buffer ss))
      then Some (ss\<lparr>buffer := (buffer ss)\<lparr>memory :=
              take off (memory (buffer ss)) @ bs @ drop (off + length bs) (memory (buffer ss))\<rparr>\<rparr>)
      else None)"

definition add_curlen :: "snapshot_st \<Rightarrow> int \<Rightarrow> snapshot_st" where
  "add_curlen ss n = ss\<lparr>buffer := (buffer ss)\<lparr>curlen := (curlen (buffer ss) + u32 n) mod 2 ^ 32\<rparr>\<rparr>"

definition set_curlen :: "snapshot_st \<Rightarrow> nat \<Rightarrow> snapshot_st" where
  "set_curlen ss n = ss\<lparr>buffer := (buffer ss)\<lparr>curlen := n\<rparr>\<rparr>"

text \<open>The bytes the buffer holds: the first \<open>curlen\<close> of the block.\<close>

definition buffered :: "snapshot_st \<Rightarrow> byte list" where
  "buffered ss = take (curlen (buffer ss)) (memory (buffer ss))"

text \<open>
  Functions that can run into undefined behaviour (an access past the end of the buffer,
  a null string printed), fail an assertion or outlast the environment known to the model
  return an option: \<open>None\<close> stands for "no normal return".

  \<open>write(fd, memory, curlen)\<close> reads \<open>curlen\<close> bytes of the block.
\<close>

definition buf_write :: "snapshot_st \<Rightarrow> sys \<Rightarrow> (int \<times> sys) option" where
  "buf_write ss s =
     (if curlen (buffer ss) \<le> length (memory (buffer ss))
      then Some (sys_write (fd (file' ss)) (buffered ss) s)
      else None)"

definition do_snapshot_buffer_check_space :: "snapshot_st \<Rightarrow> int \<Rightarrow> sys \<Rightarrow> (int \<times> snapshot_st \<times> sys) option" where
  "do_snapshot_buffer_check_space ss needsize s =
     (if (curlen (buffer ss) + u32 needsize) mod 2 ^ 32 > maxlen (buffer ss) then
        (case buf_write ss s of
           None \<Rightarrow> None
         | Some (nwritten, s') \<Rightarrow>
             if u32 nwritten \<noteq> curlen (buffer ss)
             then Some (- 1, ss, logger_log EXTENSION_LOG_WARNING ''Failed to write the snapshot'' s')
             else Some (0, set_curlen ss 0, s'))
      else Some (0, ss, s))"

definition do_snapshot_buffer_flush :: "snapshot_st \<Rightarrow> sys \<Rightarrow> (int \<times> snapshot_st \<times> sys) option" where
  "do_snapshot_buffer_flush ss s =
     (if curlen (buffer ss) > 0 then
        (case buf_write ss s of
           None \<Rightarrow> None
         | Some (nwritten, s') \<Rightarrow>
             if u32 nwritten \<noteq> curlen (buffer ss)
             then Some (- 1, ss, logger_log EXTENSION_LOG_WARNING ''Failed to write the snapshot'' s')
             else Some (0, set_curlen ss 0, snd (sys_fsync (fd (file' ss)) s')))
      else Some (0, ss, snd (sys_fsync (fd (file' ss)) s)))"

definition do_snapshot_buffer_reset :: "snapshot_st \<Rightarrow> snapshot_st" where
  "do_snapshot_buffer_reset ss = set_curlen ss 0"

section \<open>Items\<close>

text \<open>
  Modelled from the spec: the item layout and the macros \<open>GET_ITEM_TYPE\<close> and
  \<open>IS_COLL_ITEM\<close> are declared in headers outside the snapshot file. An item has one of
  five kinds (plain, list, set, map, B+tree), indexing \<open>item_type_string\<close> in that order; it
  is a collection item when its kind is not the plain one. \<open>exptime\<close> is a \<open>rel_time_t\<close>,
  an unsigned 32-bit value.
\<close>

datatype item_type = ITEM_TYPE_KV | ITEM_TYPE_LIST | ITEM_TYPE_SET | ITEM_TYPE_MAP | ITEM_TYPE_BTREE

record hash_item =
  GET_ITEM_TYPE :: item_type
  item_get_key :: "byte list"
  exptime :: nat

definition nkey :: "hash_item \<Rightarrow> nat" where
  "nkey it = length (item_get_key it)"

definition IS_COLL_ITEM :: "hash_item \<Rightarrow> bool" where
  "IS_COLL_ITEM it = (GET_ITEM_TYPE it \<noteq> ITEM_TYPE_KV)"

fun item_type_string :: "item_type \<Rightarrow> string" where
  "item_type_string ITEM_TYPE_KV = ''K''"
| "item_type_string ITEM_TYPE_LIST = ''L''"
| "item_type_string ITEM_TYPE_SET = ''S''"
| "item_type_string ITEM_TYPE_MAP = ''M''"
| "item_type_string ITEM_TYPE_BTREE = ''B''"

fun snapshot_mode_string :: "chkpt_snapshot_mode \<Rightarrow> string" where
  "snapshot_mode_string CHKPT_SNAPSHOT_MODE_KEY = ''KEY''"
| "snapshot_mode_string CHKPT_SNAPSHOT_MODE_DATA = ''DATA''"
| "snapshot_mode_string CHKPT_SNAPSHOT_MODE_CHKPT = ''CHKPT''"
| "snapshot_mode_string CHKPT_SNAPSHOT_MODE_MAX = []"

section \<open>What the build and the log record module provide\<close>

text \<open>
  The snapshot file uses constants, types and functions declared in headers that are not
  part of it. They are the fields of \<open>params\<close>:
  \<^item> \<open>ENABLE_STICKY_ITEM\<close>: whether the build defines the macro;
  \<^item> \<open>MAX_FILEPATH_LENGTH\<close>, \<open>MAX_LOG_RECORD_SIZE\<close>, \<open>sizeof_LogHdr\<close> and
    \<open>sizeof_SnapshotDoneLog\<close>: the constants and the sizes of the two structures;
  \<^item> \<open>lrec_link_item\<close>, \<open>lrec_snapshot_elem\<close>, \<open>lrec_snapshot_done\<close>: the bytes that
    \<open>lrec_write_to_buffer\<close> stores for the record built by \<open>lrec_construct_link_item\<close>,
    \<open>lrec_construct_snapshot_elem\<close> and \<open>lrec_construct_snapshot_done\<close>; the size these
    return is the length of the bytes;
  \<^item> \<open>lrec_check_snapshot_done\<close>: the function of that name, on the bytes of the record;
  \<^item> \<open>logtype_of\<close> and \<open>body_length_of\<close>: the fields \<open>logtype\<close> and \<open>body_length\<close> of a
    header, read from its bytes.
\<close>

type_synonym elem = "byte list"

datatype logtype = LOG_IT_LINK | LOG_SNAPSHOT_ELEM | LOG_SNAPSHOT_DONE | LOG_OTHER nat

record params =
  ENABLE_STICKY_ITEM :: bool
  MAX_FILEPATH_LENGTH :: nat
  MAX_LOG_RECORD_SIZE :: nat
  sizeof_LogHdr :: nat
  sizeof_SnapshotDoneLog :: nat
  lrec_link_item :: "hash_item \<Rightarrow> byte list"
  lrec_snapshot_elem :: "hash_item \<Rightarrow> elem \<Rightarrow> byte list"
  lrec_snapshot_done :: "byte list"
  lrec_check_snapshot_done :: "byte list \<Rightarrow> int"
  logtype_of :: "byte list \<Rightarrow> logtype"
  body_length_of :: "byte list \<Rightarrow> nat"

section \<open>The key snapshot\<close>

text \<open>
  The expiration field of a key line (lines 188 to 200 of the source): the bytes stored
  at the buffer position and the length added to \<open>curlen\<close>. \<open>sprintf\<close> stores a
  terminating NUL after the text it prints, \<open>memcpy\<close> does not. The branch for sticky
  items is compiled in under \<open>ENABLE_STICKY_ITEM\<close>, the first argument.
\<close>

definition STICKY_EXPTIME :: nat where
  "STICKY_EXPTIME = 2 ^ 32 - 1"

definition key_dump_exptime :: "bool \<Rightarrow> nat \<Rightarrow> hash_item \<Rightarrow> byte list \<times> int" where
  "key_dump_exptime sticky curtime it =
     (if exptime it = 0 then ('' 0'' @ [NL], 3)
      else if sticky \<and> exptime it = STICKY_EXPTIME then ('' -1'' @ [NL], 4)
      else
        (let diff_time = (if exptime it > curtime then exptime it - curtime else 1);
             txt = '' '' @ decimal diff_time @ [NL]
         in (txt @ [NUL], int (length txt))))"

text \<open>One round of the loop of \<open>do_snapshot_key_dump\<close>, after the space check.\<close>

definition key_dump_item :: "bool \<Rightarrow> nat \<Rightarrow> snapshot_st \<Rightarrow> hash_item \<Rightarrow> snapshot_st option" where
  "key_dump_item sticky curtime ss it =
     (let bufptr = curlen (buffer ss) in
      case buf_store ss bufptr (take 1 (item_type_string (GET_ITEM_TYPE it))) of
        None \<Rightarrow> None
      | Some ss1 \<Rightarrow>
      (case buf_store ss1 (bufptr + 1) '' '' of
        None \<Rightarrow> None
      | Some ss2 \<Rightarrow>
      (case buf_store ss2 (bufptr + 2) (item_get_key it) of
        None \<Rightarrow> None
      | Some ss3 \<Rightarrow>
      (case key_dump_exptime sticky curtime it of
        (bytes, len) \<Rightarrow>
      (case buf_store ss3 (bufptr + 2 + nkey it) bytes of
        None \<Rightarrow> None
      | Some ss4 \<Rightarrow>
          Some ((add_curlen ss4 (len + int (nkey it) + 2))\<lparr>snapped := (snapped ss4 + 1) mod 2 ^ 64\<rparr>))))))"

fun key_dump_loop :: "bool \<Rightarrow> nat \<Rightarrow> snapshot_st \<Rightarrow> hash_item list \<Rightarrow> sys \<Rightarrow> (int \<times> snapshot_st \<times> sys) option" where
  "key_dump_loop sticky curtime ss [] s = Some (0, ss, s)"
| "key_dump_loop sticky curtime ss (it # its) s =
     (case do_snapshot_buffer_check_space ss (24 + int (nkey it)) s of
        None \<Rightarrow> None
      | Some (r, ss1, s1) \<Rightarrow>
          if r < 0 then Some (- 1, ss1, s1)
          else (case key_dump_item sticky curtime ss1 it of
                  None \<Rightarrow> None
                | Some ss2 \<Rightarrow> key_dump_loop sticky curtime ss2 its s1))"

definition do_snapshot_key_dump :: "params \<Rightarrow> snapshot_st \<Rightarrow> hash_item list \<Rightarrow> sys \<Rightarrow> (int \<times> snapshot_st \<times> sys) option" where
  "do_snapshot_key_dump P ss item_array s =
     key_dump_loop (ENABLE_STICKY_ITEM P) (rel_time s) ss item_array s"

text \<open>
  \<open>snprintf(bufptr, needsize, ...)\<close> stores at most \<open>needsize - 1\<close> characters and a NUL,
  and returns the length of the whole text.
\<close>

definition prefix_string :: "snapshot_st \<Rightarrow> string option" where
  "prefix_string ss =
     (if nprefix ss > 0 then prefix ss
      else if nprefix ss = 0 then Some ''<null>'' else Some ''<all>'')"

definition snapshot_summary :: "string \<Rightarrow> nat \<Rightarrow> nat \<Rightarrow> string" where
  "snapshot_summary pfx count elapsed =
     ''SNAPSHOT SUMMARY: { prefix='' @ pfx @ '', count='' @ decimal count
       @ '', elapsed='' @ decimal elapsed @ '' }'' @ [NL]"

definition do_snapshot_key_done :: "snapshot_st \<Rightarrow> sys \<Rightarrow> (int \<times> snapshot_st \<times> sys) option" where
  "do_snapshot_key_done ss s =
     (case do_snapshot_buffer_check_space ss 256 s of
        None \<Rightarrow> None
      | Some (r, ss1, s1) \<Rightarrow>
          if r < 0 then Some (- 1, ss1, s1)
          else
            (case prefix_string ss1 of
               None \<Rightarrow> None
             | Some pfx \<Rightarrow>
                 (let txt = snapshot_summary pfx (snapped ss1) (nat ((clock s1 - started ss1) mod 2 ^ 64))
                  in case buf_store ss1 (curlen (buffer ss1)) (take 255 txt @ [NUL]) of
                       None \<Rightarrow> None
                     | Some ss2 \<Rightarrow>
                         (case do_snapshot_buffer_flush (add_curlen ss2 (int (length txt))) s1 of
                            None \<Rightarrow> None
                          | Some (r', ss3, s3) \<Rightarrow>
                              if r' < 0 then Some (- 1, ss3, s3) else Some (0, ss3, s3)))))"

section \<open>The data snapshot\<close>

text \<open>Checking the space for one record and storing it (the same four lines each time).\<close>

definition data_put :: "snapshot_st \<Rightarrow> byte list \<Rightarrow> sys \<Rightarrow> (int \<times> snapshot_st \<times> sys) option" where
  "data_put ss rec s =
     (case do_snapshot_buffer_check_space ss (int (length rec)) s of
        None \<Rightarrow> None
      | Some (r, ss1, s1) \<Rightarrow>
          if r < 0 then Some (- 1, ss1, s1)
          else (case buf_store ss1 (curlen (buffer ss1)) rec of
                  None \<Rightarrow> None
                | Some ss2 \<Rightarrow> Some (0, add_curlen ss2 (int (length rec)), s1)))"

text \<open>The inner loop over the elements of one collection item.\<close>

fun data_dump_elems :: "params \<Rightarrow> hash_item \<Rightarrow> snapshot_st \<Rightarrow> elem list \<Rightarrow> sys \<Rightarrow> (int \<times> snapshot_st \<times> sys) option" where
  "data_dump_elems P it ss [] s = Some (0, ss, s)"
| "data_dump_elems P it ss (e # es) s =
     (case data_put ss (lrec_snapshot_elem P it e) s of
        None \<Rightarrow> None
      | Some (r, ss1, s1) \<Rightarrow>
          if r < 0 then Some (- 1, ss1, s1) else data_dump_elems P it ss1 es s1)"

text \<open>
  The outer loop. \<open>erst\<close> is the element result array from the position of the current
  item on, or \<open>None\<close> when \<open>erst_array\<close> is null; reading past its end has no normal
  return.
\<close>

fun data_dump_loop :: "params \<Rightarrow> snapshot_st \<Rightarrow> hash_item list \<Rightarrow> elem list list option \<Rightarrow> sys \<Rightarrow> (int \<times> snapshot_st \<times> sys) option" where
  "data_dump_loop P ss [] erst s = Some (0, ss, s)"
| "data_dump_loop P ss (it # its) erst s =
     (case data_put ss (lrec_link_item P it) s of
        None \<Rightarrow> None
      | Some (r, ss1, s1) \<Rightarrow>
          if r < 0 then Some (- 1, ss1, s1)
          else if erst \<noteq> None \<and> IS_COLL_ITEM it then
            (case the erst of
               [] \<Rightarrow> None
             | eresult # erest \<Rightarrow>
                 (case data_dump_elems P it ss1 eresult s1 of
                    None \<Rightarrow> None
                  | Some (r', ss2, s2) \<Rightarrow>
                      if r' = - 1 then Some (- 1, ss2, s2)
                      else data_dump_loop P (ss2\<lparr>snapped := (snapped ss2 + 1) mod 2 ^ 64\<rparr>) its
                             (Some erest) s2))
          else data_dump_loop P (ss1\<lparr>snapped := (snapped ss1 + 1) mod 2 ^ 64\<rparr>) its
                 (map_option tl erst) s1)"

definition do_snapshot_data_dump :: "params \<Rightarrow> snapshot_st \<Rightarrow> hash_item list \<Rightarrow> elem list list option \<Rightarrow> sys \<Rightarrow> (int \<times> snapshot_st \<times> sys) option" where
  "do_snapshot_data_dump P ss item_array erst_array s = data_dump_loop P ss item_array erst_array s"

definition do_snapshot_data_done :: "params \<Rightarrow> snapshot_st \<Rightarrow> sys \<Rightarrow> (int \<times> snapshot_st \<times> sys) option" where
  "do_snapshot_data_done P ss s =
     (case data_put ss (lrec_snapshot_done P) s of
        None \<Rightarrow> None
      | Some (r, ss1, s1) \<Rightarrow>
          if r < 0 then Some (- 1, ss1, s1)
          else (case do_snapshot_buffer_flush ss1 s1 of
                  None \<Rightarrow> None
                | Some (r', ss2, s2) \<Rightarrow> if r' < 0 then Some (- 1, ss2, s2) else Some (0, ss2, s2)))"

text \<open>The table \<open>snapshot_func\<close>: it has no entry for \<open>CHKPT_SNAPSHOT_MODE_MAX\<close>.\<close>

definition snapshot_func_dump :: "params \<Rightarrow> chkpt_snapshot_mode \<Rightarrow> snapshot_st \<Rightarrow> hash_item list \<Rightarrow> elem list list option \<Rightarrow> sys \<Rightarrow> (int \<times> snapshot_st \<times> sys) option" where
  "snapshot_func_dump P m ss item_array args s =
     (case m of
        CHKPT_SNAPSHOT_MODE_KEY \<Rightarrow> do_snapshot_key_dump P ss item_array s
      | CHKPT_SNAPSHOT_MODE_DATA \<Rightarrow> do_snapshot_data_dump P ss item_array args s
      | CHKPT_SNAPSHOT_MODE_CHKPT \<Rightarrow> do_snapshot_data_dump P ss item_array args s
      | CHKPT_SNAPSHOT_MODE_MAX \<Rightarrow> None)"

definition snapshot_func_done :: "params \<Rightarrow> chkpt_snapshot_mode \<Rightarrow> snapshot_st \<Rightarrow> sys \<Rightarrow> (int \<times> snapshot_st \<times> sys) option" where
  "snapshot_func_done P m ss s =
     (case m of
        CHKPT_SNAPSHOT_MODE_KEY \<Rightarrow> do_snapshot_key_done ss s
      | CHKPT_SNAPSHOT_MODE_DATA \<Rightarrow> do_snapshot_data_done P ss s
      | CHKPT_SNAPSHOT_MODE_CHKPT \<Rightarrow> do_snapshot_data_done P ss s
      | CHKPT_SNAPSHOT_MODE_MAX \<Rightarrow> None)"

section \<open>Starting, running and stopping a snapshot\<close>

definition do_snapshot_argcheck :: "chkpt_snapshot_mode \<Rightarrow> sys \<Rightarrow> ENGINE_ERROR_CODE \<times> sys" where
  "do_snapshot_argcheck m s =
     (if m = CHKPT_SNAPSHOT_MODE_MAX
      then (ENGINE_EBADVALUE,
            logger_log EXTENSION_LOG_WARNING ''Failed to start snapshot. Given mode is invalid.'' s)
      else (ENGINE_SUCCESS, s))"

definition do_snapshot_prepare :: "params \<Rightarrow> snapshot_st \<Rightarrow> chkpt_snapshot_mode \<Rightarrow> string option \<Rightarrow> int \<Rightarrow> string option \<Rightarrow> nat option \<Rightarrow> sys \<Rightarrow> snapshot_st" where
  "do_snapshot_prepare P ss m pfx npfx filepath callback s =
     do_snapshot_buffer_reset
       (ss\<lparr>success := False, reqstop := False, mode := m, snapped := 0, started := clock s,
           stopped := 0, prefix := pfx, nprefix := npfx, cb_snapshot_done := callback,
           file' := \<lparr>path = take (MAX_FILEPATH_LENGTH P - 1)
                              (case filepath of Some p \<Rightarrow> p | None \<Rightarrow> ''chkpt_snapshot''),
                     fd = - 1, size' = 0\<rparr>\<rparr>)"

text \<open>
  The item scanner and the thread that may ask for a stop are outside the snapshot code.
  One \<open>scan_step\<close> describes one round of the scan loop: whether a stop has been requested
  by the time the round tests \<open>reqstop\<close>, and what \<open>item_scan_getnext\<close> returns and puts
  into the two arrays if the round calls it. The loop runs on the list of the rounds known;
  when the list is used up before the loop ends there is no result.
\<close>

record scan_step =
  stop_req :: bool
  item_count :: int
  item_array :: "hash_item list"
  elem_array :: "elem list list"

fun action_loop :: "params \<Rightarrow> bool \<Rightarrow> scan_step list \<Rightarrow> snapshot_st \<Rightarrow> sys \<Rightarrow> (bool \<times> snapshot_st \<times> sys) option" where
  "action_loop P have_erst [] ss s = None"
| "action_loop P have_erst (r # rs) ss s =
     (let ss0 = (if stop_req r then ss\<lparr>reqstop := True\<rparr> else ss) in
      if reqstop ss0 then
        Some (False, ss0, logger_log EXTENSION_LOG_INFO ''Ongoing snapshot recognized stop request.'' s)
      else
        (let s0 = emit E_scan_getnext s in
         if item_count r = - 2 then
           Some (False, ss0,
                 logger_log EXTENSION_LOG_WARNING ''The item scan function has failed by out of memory.'' s0)
         else if item_count r < 0 then
           (case snapshot_func_done P (mode ss0) ss0 (emit E_done s0) of
              None \<Rightarrow> None
            | Some (rc, ss1, s1) \<Rightarrow>
                if rc < 0 then
                  Some (False, ss1,
                        logger_log EXTENSION_LOG_WARNING ''The snapshot done function has failed.'' s1)
                else Some (True, ss1, s1))
         else if item_count r > 0 then
           (case snapshot_func_dump P (mode ss0) ss0 (take (nat (item_count r)) (item_array r))
                   (if have_erst then Some (elem_array r) else None)
                   (emit (E_dump (item_count r)) s0) of
              None \<Rightarrow> None
            | Some (ret, ss1, s1) \<Rightarrow>
                (let s2 = emit (E_scan_release (item_count r)) s1 in
                 if ret < 0 then
                   Some (False, ss1,
                         logger_log EXTENSION_LOG_WARNING ''The snapshot dump function has failed.'' s2)
                 else action_loop P have_erst rs ss1 s2))
         else action_loop P have_erst rs ss0 s0))"

text \<open>The part of \<open>do_snapshot_action\<close> after the label \<open>done\<close>.\<close>

definition action_done :: "bool \<Rightarrow> snapshot_st \<Rightarrow> sys \<Rightarrow> bool \<times> snapshot_st \<times> sys" where
  "action_done snapshot_done ss s =
     (if fd (file' ss) > 0 then
        (case sys_lseek_end (fd (file' ss)) 0 s of
           (sz, s1) \<Rightarrow>
             (snapshot_done,
              ss\<lparr>file' := (file' ss)\<lparr>size' := nat (sz mod 2 ^ 64), fd := - 1\<rparr>,
                 success := snapshot_done, stopped := clock s1\<rparr>,
              sys_close (fd (file' ss)) s1))
      else (snapshot_done, ss\<lparr>success := snapshot_done, stopped := clock s\<rparr>, s))"

definition do_snapshot_action :: "params \<Rightarrow> scan_step list \<Rightarrow> snapshot_st \<Rightarrow> sys \<Rightarrow> (bool \<times> snapshot_st \<times> sys) option" where
  "do_snapshot_action P rounds ss s =
     (case sys_open_trunc (path (file' ss)) s of
        (d, s1) \<Rightarrow>
          (let ss1 = ss\<lparr>file' := (file' ss)\<lparr>fd := d\<rparr>\<rparr> in
           if d < 0 then
             Some (action_done False ss1
                     (logger_log EXTENSION_LOG_WARNING ''Failed to open the snapshot file.'' s1))
           else
             (let is_chkpt = (mode ss1 = CHKPT_SNAPSHOT_MODE_CHKPT);
                  have_erst = (mode ss1 = CHKPT_SNAPSHOT_MODE_DATA \<or> mode ss1 = CHKPT_SNAPSHOT_MODE_CHKPT)
              in case action_loop P have_erst rounds ss1 (emit (E_scan_open is_chkpt) s1) of
                   None \<Rightarrow> None
                 | Some (snapshot_done, ss2, s2) \<Rightarrow>
                     Some (action_done snapshot_done ss2 (emit (E_scan_close is_chkpt snapshot_done) s2)))))"

definition do_snapshot_direct :: "params \<Rightarrow> scan_step list \<Rightarrow> snapshot_st \<Rightarrow> chkpt_snapshot_mode \<Rightarrow> string option \<Rightarrow> int \<Rightarrow> string option \<Rightarrow> sys \<Rightarrow> (ENGINE_ERROR_CODE \<times> snapshot_st \<times> sys) option" where
  "do_snapshot_direct P rounds ss m pfx npfx filepath s =
     (if running ss then
        Some (ENGINE_FAILED, ss,
              logger_log EXTENSION_LOG_INFO ''Failed to start snapshot. Already started.'' s)
      else
        (let ss1 = (do_snapshot_prepare P ss m pfx npfx filepath None s)\<lparr>running := True\<rparr> in
         case do_snapshot_action P rounds ss1 (emit E_mutex_unlock s) of
           None \<Rightarrow> None
         | Some (ok, ss2, s2) \<Rightarrow>
             (let s3 = logger_log EXTENSION_LOG_INFO
                         (if ok then ''Done the snapshot action.'' else ''Failed to do snapshot action'') s2
              in Some (if ok then ENGINE_SUCCESS else ENGINE_FAILED,
                       ss2\<lparr>running := False\<rparr>, emit E_mutex_lock s3))))"

text \<open>The body of the snapshot thread; \<open>assert(ss->running == true)\<close> comes first.\<close>

definition do_snapshot_thread_main :: "params \<Rightarrow> scan_step list \<Rightarrow> snapshot_st \<Rightarrow> sys \<Rightarrow> (snapshot_st \<times> sys) option" where
  "do_snapshot_thread_main P rounds ss s =
     (if \<not> running ss then None
      else
        (case do_snapshot_action P rounds ss s of
           None \<Rightarrow> None
         | Some (ok, ss1, s1) \<Rightarrow>
             (let s2 = logger_log EXTENSION_LOG_INFO
                         (if ok then ''The snapshot thread has done the snapshot action.''
                          else ''The snapshot thread has failed to do snapshot action.'') s1;
                  s3 = emit E_mutex_unlock (emit E_mutex_lock s2)
              in Some (ss1\<lparr>running := False\<rparr>,
                       (case cb_snapshot_done ss1 of None \<Rightarrow> s3 | Some cb \<Rightarrow> emit (E_callback cb) s3)))))"

text \<open>
  \<open>do_snapshot_start\<close> returns once the thread is created; what the thread then does is
  \<open>do_snapshot_thread_main\<close>. Creating the thread is a call that can fail.
\<close>

definition do_snapshot_start :: "params \<Rightarrow> snapshot_st \<Rightarrow> chkpt_snapshot_mode \<Rightarrow> string option \<Rightarrow> int \<Rightarrow> string option \<Rightarrow> nat option \<Rightarrow> sys \<Rightarrow> ENGINE_ERROR_CODE \<times> snapshot_st \<times> sys" where
  "do_snapshot_start P ss m pfx npfx filepath callback s =
     (if running ss then
        (ENGINE_FAILED, ss,
         logger_log EXTENSION_LOG_INFO ''Failed to start snapshot. Already started.'' s)
      else
        (let ss1 = (do_snapshot_prepare P ss m pfx npfx filepath callback s)\<lparr>running := True\<rparr> in
         if next_io s = IO_fail then
           (ENGINE_FAILED, ss1\<lparr>running := False\<rparr>,
            logger_log EXTENSION_LOG_WARNING ''Failed to create the snapshot thread.'' (pop_io s))
         else (ENGINE_SUCCESS, ss1, emit E_thread_create (pop_io s))))"

text \<open>
  The loop of \<open>do_snapshot_stop\<close>. While the caller has given up the lock and sleeps, the
  snapshot thread (or any other thread taking the lock) changes the state; each element of
  \<open>others\<close> is the change made during one such sleep. When the list is used up and the
  loop has not ended there is no result.
\<close>

fun stop_loop :: "bool \<Rightarrow> (snapshot_st \<Rightarrow> snapshot_st) list \<Rightarrow> snapshot_st \<Rightarrow> sys \<Rightarrow> (snapshot_st \<times> sys) option" where
  "stop_loop wait_stop others ss s =
     (if running ss then
        (let ss1 = ss\<lparr>reqstop := True\<rparr> in
         if wait_stop then
           (case others of
              [] \<Rightarrow> None
            | other # rest \<Rightarrow>
                stop_loop wait_stop rest (other ss1)
                  (emit E_mutex_lock (emit (E_usleep 1000) (emit E_mutex_unlock s))))
         else Some (ss1, s))
      else Some (ss, s))"

declare stop_loop.simps [simp del]

definition do_snapshot_stop :: "(snapshot_st \<Rightarrow> snapshot_st) list \<Rightarrow> snapshot_st \<Rightarrow> bool \<Rightarrow> sys \<Rightarrow> (snapshot_st \<times> sys) option" where
  "do_snapshot_stop others ss wait_stop s =
     (if \<not> running ss \<or> mode ss = CHKPT_SNAPSHOT_MODE_CHKPT then Some (ss, s)
      else
        (case stop_loop wait_stop others ss s of
           None \<Rightarrow> None
         | Some (ss1, s1) \<Rightarrow> Some (ss1, logger_log EXTENSION_LOG_INFO ''Snapshot thread stopped.'' s1)))"

section \<open>The external functions\<close>

text \<open>The state \<open>chkpt_snapshot_init\<close> sets up; the block has \<open>SNAPSHOT_BUFFER_SIZE\<close> bytes.\<close>

definition chkpt_snapshot_init :: "byte list \<Rightarrow> snapshot_st" where
  "chkpt_snapshot_init block =
     \<lparr>running = False, success = False, reqstop = False, mode = CHKPT_SNAPSHOT_MODE_MAX,
      snapped = 0, started = 0, stopped = 0, prefix = None, nprefix = - 1,
      file' = \<lparr>path = [], fd = - 1, size' = 0\<rparr>,
      buffer = \<lparr>memory = block, maxlen = SNAPSHOT_BUFFER_SIZE, curlen = 0\<rparr>,
      cb_snapshot_done = None, initialized = True\<rparr>"

definition chkpt_snapshot_direct :: "params \<Rightarrow> scan_step list \<Rightarrow> snapshot_st \<Rightarrow> chkpt_snapshot_mode \<Rightarrow> string option \<Rightarrow> int \<Rightarrow> string option \<Rightarrow> sys \<Rightarrow> (ENGINE_ERROR_CODE \<times> nat option \<times> snapshot_st \<times> sys) option" where
  "chkpt_snapshot_direct P rounds ss m pfx npfx filepath s =
     (case do_snapshot_argcheck m s of
        (ret, s1) \<Rightarrow>
          if ret \<noteq> ENGINE_SUCCESS then Some (ret, None, ss, s1)
          else
            (case do_snapshot_direct P rounds ss m pfx npfx filepath (emit E_mutex_lock s1) of
               None \<Rightarrow> None
             | Some (ret', ss1, s2) \<Rightarrow>
                 Some (ret', if ret' = ENGINE_SUCCESS then Some (size' (file' ss1)) else None,
                       ss1, emit E_mutex_unlock s2)))"

definition chkpt_snapshot_start :: "params \<Rightarrow> snapshot_st \<Rightarrow> chkpt_snapshot_mode \<Rightarrow> string option \<Rightarrow> int \<Rightarrow> string option \<Rightarrow> nat option \<Rightarrow> sys \<Rightarrow> ENGINE_ERROR_CODE \<times> snapshot_st \<times> sys" where
  "chkpt_snapshot_start P ss m pfx npfx filepath callback s =
     (case do_snapshot_argcheck m s of
        (ret, s1) \<Rightarrow>
          if ret \<noteq> ENGINE_SUCCESS then (ret, ss, s1)
          else
            (case do_snapshot_start P ss m pfx npfx filepath callback (emit E_mutex_lock s1) of
               (ret', ss1, s2) \<Rightarrow> (ret', ss1, emit E_mutex_unlock s2)))"

definition chkpt_snapshot_stop :: "(snapshot_st \<Rightarrow> snapshot_st) list \<Rightarrow> snapshot_st \<Rightarrow> sys \<Rightarrow> (snapshot_st \<times> sys) option" where
  "chkpt_snapshot_stop others ss s =
     (case do_snapshot_stop others ss True (emit E_mutex_lock s) of
        None \<Rightarrow> None
      | Some (ss1, s1) \<Rightarrow> Some (ss1, emit E_mutex_unlock s1))"

text \<open>
  \<open>chkpt_snapshot_check_file_validity\<close>: the result code, the value of \<open>*filesize\<close>
  afterwards (the second argument is its value before) and the system state.
  \<open>-sizeof(log)\<close>, an unsigned value, becomes the negative offset when it is passed as
  an \<open>off_t\<close>.
\<close>

definition chkpt_snapshot_check_file_validity :: "params \<Rightarrow> int \<Rightarrow> nat \<Rightarrow> sys \<Rightarrow> (int \<times> nat \<times> sys) option" where
  "chkpt_snapshot_check_file_validity P d filesize s =
     (if \<not> d > 0 then None
      else
        (case sys_lseek_end d (- int (sizeof_SnapshotDoneLog P)) s of
           (offset, s1) \<Rightarrow>
             if offset < 0 then Some (- 1, filesize, s1)
             else
               (case sys_read d (sizeof_SnapshotDoneLog P) s1 of
                  (nread, log, s2) \<Rightarrow>
                    if nread \<noteq> int (sizeof_SnapshotDoneLog P) then Some (- 1, filesize, s2)
                    else
                      (case sys_lseek_set d 0 s2 of
                         (_, s3) \<Rightarrow>
                           Some (lrec_check_snapshot_done P log,
                                 nat ((offset + int (sizeof_SnapshotDoneLog P)) mod 2 ^ 64), s3)))))"

section \<open>Replaying a snapshot file\<close>

text \<open>
  A log record as the redo functions get it: the header bytes, the bytes of the buffer
  after the header, and the item that \<open>lrec_set_item_in_snapshot_elem\<close> puts into an
  element record.
\<close>

record logrec =
  header :: "byte list"
  body :: "byte list"
  elem_item :: "hash_item option"

text \<open>
  The engine is outside the snapshot code. Its state is of any type \<open>'e\<close>; \<open>engine_ops\<close>
  holds the flag \<open>engine->initialized\<close> and the three functions the replay calls.
  \<open>lrec_get_item_if_collection_link\<close> returns a null pointer (\<open>None\<close>) or an item.
\<close>

record 'e engine_ops =
  eng_initialized :: "'e \<Rightarrow> bool"
  lrec_redo_from_record :: "logrec \<Rightarrow> 'e \<Rightarrow> ENGINE_ERROR_CODE \<times> 'e"
  lrec_get_item_if_collection_link :: "logrec \<Rightarrow> 'e \<Rightarrow> hash_item option \<times> 'e"
  item_release :: "hash_item \<Rightarrow> 'e \<Rightarrow> 'e"

text \<open>
  The calls into the engine, in the order the replay makes them; a call of
  \<open>lrec_redo_from_record\<close> and of \<open>lrec_get_item_if_collection_link\<close> with what it returned.
\<close>

datatype replay_call =
  Call_redo logrec ENGINE_ERROR_CODE
  | Call_release hash_item
  | Call_get_item logrec "hash_item option"

text \<open>
  The variables of the loop of \<open>chkpt_snapshot_file_apply\<close>: the engine, the system, the
  part of \<open>buf\<close> after the header, \<open>last_coll_it\<close>, and the calls made so far.
\<close>

record 'e replay_st =
  r_engine :: 'e
  r_sys :: sys
  r_body :: "byte list"
  last_coll_it :: "hash_item option"
  r_calls :: "replay_call list"

text \<open>How one round of the loop ends: with the next round, with a \<open>break\<close> (and the value
  of \<open>ret\<close>), or in a failed assertion.\<close>

datatype 'a round = Continue 'a | Break int 'a | Abort

definition r_log :: "log_level \<Rightarrow> string \<Rightarrow> 'e replay_st \<Rightarrow> 'e replay_st" where
  "r_log lvl msg st = st\<lparr>r_sys := logger_log lvl msg (r_sys st)\<rparr>"

text \<open>Lines 737 to 762: reading the header and the body of the next record.\<close>

definition read_record :: "params \<Rightarrow> int \<Rightarrow> 'e replay_st \<Rightarrow> 'e replay_st + (byte list \<times> 'e replay_st)" where
  "read_record P d st =
     (case sys_read d (sizeof_LogHdr P) (r_sys st) of
        (nread, hdr, s1) \<Rightarrow>
          if nread \<noteq> int (sizeof_LogHdr P) then
            Inl (r_log EXTENSION_LOG_WARNING ''[RECOVERY - SNAPSHOT] failed : read header data''
                   (st\<lparr>r_sys := s1\<rparr>))
          else
            (let body_length = body_length_of P hdr mod 2 ^ 32 in
             if body_length > 0 then
               (if u32 (int (MAX_LOG_RECORD_SIZE P) - int (sizeof_LogHdr P)) < body_length then
                  Inl (r_log EXTENSION_LOG_WARNING
                         ''[RECOVERY - SNAPSHOT] failed : body length is abnormally too big''
                         (st\<lparr>r_sys := s1\<rparr>))
                else
                  (case sys_read d body_length s1 of
                     (nread', bytes, s2) \<Rightarrow>
                       (let st2 = st\<lparr>r_sys := s2, r_body := bytes @ drop (length bytes) (r_body st)\<rparr> in
                        if nread' \<noteq> int body_length then
                          Inl (r_log EXTENSION_LOG_WARNING
                                 ''[RECOVERY - SNAPSHOT] failed : read body data'' st2)
                        else Inr (hdr, st2))))
             else Inr (hdr, st\<lparr>r_sys := s1\<rparr>)))"

definition release_last :: "'e engine_ops \<Rightarrow> 'e replay_st \<Rightarrow> 'e replay_st" where
  "release_last E st =
     (case last_coll_it st of
        None \<Rightarrow> st
      | Some it \<Rightarrow> st\<lparr>r_engine := item_release E it (r_engine st),
                      r_calls := r_calls st @ [Call_release it]\<rparr>)"

text \<open>Calling \<open>lrec_redo_from_record\<close> and logging the warning when it fails.\<close>

definition redo :: "'e engine_ops \<Rightarrow> string \<Rightarrow> logrec \<Rightarrow> 'e replay_st \<Rightarrow> ENGINE_ERROR_CODE \<times> 'e replay_st" where
  "redo E msg lr st =
     (case lrec_redo_from_record E lr (r_engine st) of
        (err, e1) \<Rightarrow>
          (let st1 = st\<lparr>r_engine := e1, r_calls := r_calls st @ [Call_redo lr err]\<rparr> in
           (err, if err \<noteq> ENGINE_SUCCESS then r_log EXTENSION_LOG_WARNING msg st1 else st1)))"

text \<open>Lines 764 to 798: what the loop does with the record read.\<close>

definition dispatch :: "params \<Rightarrow> 'e engine_ops \<Rightarrow> byte list \<Rightarrow> 'e replay_st \<Rightarrow> 'e replay_st round" where
  "dispatch P E hdr st =
     (let lr = \<lparr>header = hdr, body = r_body st, elem_item = None\<rparr> in
      if logtype_of P hdr = LOG_IT_LINK then
        (case redo E ''[RECOVERY - SNAPSHOT] warning : item link log record redo failed.'' lr st of
           (err, st1) \<Rightarrow>
             if err \<noteq> ENGINE_SUCCESS \<and> err = ENGINE_ENOMEM then
               Break (- 1) (r_log EXTENSION_LOG_WARNING ''[RECOVERY - SNAPSHOT] failed : out of memory.'' st1)
             else
               (let st2 = release_last E st1 in
                case lrec_get_item_if_collection_link E lr (r_engine st2) of
                  (res, e3) \<Rightarrow>
                    Continue (st2\<lparr>r_engine := e3, last_coll_it := res,
                                  r_calls := r_calls st2 @ [Call_get_item lr res]\<rparr>)))
      else if logtype_of P hdr = LOG_SNAPSHOT_ELEM \<and> last_coll_it st \<noteq> None then
        (if \<not> IS_COLL_ITEM (the (last_coll_it st)) then Abort
         else
           (case redo E ''[RECOVERY - SNAPSHOT] warning : snapshot elem log record redo failed.''
                   (lr\<lparr>elem_item := last_coll_it st\<rparr>) st of
              (err, st1) \<Rightarrow>
                if err \<noteq> ENGINE_SUCCESS \<and> err = ENGINE_ENOMEM then
                  Break (- 1) (r_log EXTENSION_LOG_WARNING ''[RECOVERY - SNAPSHOT] failed : out of memory.'' st1)
                else Continue st1))
      else if logtype_of P hdr = LOG_SNAPSHOT_DONE then
        Break 0 (r_log EXTENSION_LOG_INFO ''[RECOVERY - SNAPSHOT] success.'' (release_last E st))
      else Continue st)"

definition replay_round :: "params \<Rightarrow> 'e engine_ops \<Rightarrow> int \<Rightarrow> 'e replay_st \<Rightarrow> 'e replay_st round" where
  "replay_round P E d st =
     (case read_record P d st of
        Inl st1 \<Rightarrow> Break (- 1) st1
      | Inr (hdr, st1) \<Rightarrow> dispatch P E hdr st1)"

text \<open>
  The loop \<open>while (engine->initialized)\<close>. It returns the value of \<open>ret\<close>; when it never
  ends, or an assertion fails, the result is \<open>None\<close>.
\<close>

partial_function (option) replay_loop :: "params \<Rightarrow> 'e engine_ops \<Rightarrow> int \<Rightarrow> 'e replay_st \<Rightarrow> (int \<times> 'e replay_st) option" where
  "replay_loop P E d st =
     (if \<not> eng_initialized E (r_engine st) then Some (0, st)
      else
        (case replay_round P E d st of
           Continue st1 \<Rightarrow> replay_loop P E d st1
         | Break ret st1 \<Rightarrow> Some (ret, st1)
         | Abort \<Rightarrow> None))"

text \<open>\<open>buf0\<close> is what the array \<open>buf\<close> holds after the header when the function starts.\<close>

definition chkpt_snapshot_file_apply :: "params \<Rightarrow> 'e engine_ops \<Rightarrow> byte list \<Rightarrow> string \<Rightarrow> 'e \<Rightarrow> sys \<Rightarrow> (int \<times> 'e replay_st) option" where
  "chkpt_snapshot_file_apply P E buf0 filepath e s =
     (case sys_open_rdonly filepath
             (logger_log EXTENSION_LOG_INFO ''[RECOVERY - SNAPSHOT] applying snapshot file.'' s) of
        (d, s1) \<Rightarrow>
          if d < 0 then
            Some (- 1, \<lparr>r_engine = e,
                         r_sys = logger_log EXTENSION_LOG_WARNING
                                   ''[RECOVERY - SNAPSHOT] failed : file open.'' s1,
                         r_body = buf0, last_coll_it = None, r_calls = []\<rparr>)
          else
            (case replay_loop P E d
                    \<lparr>r_engine = e, r_sys = s1, r_body = buf0, last_coll_it = None, r_calls = []\<rparr> of
               None \<Rightarrow> None
             | Some (ret, st) \<Rightarrow> Some (ret, st\<lparr>r_sys := sys_close d (r_sys st)\<rparr>)))"

section \<open>The expiration field as the specification words it\<close>

text \<open>
  The text between the key and the end of a key line, case by case as the specification
  lists them; \<open>key_dump_exptime\<close> above is the code it is compared with.
\<close>

definition exptime_text :: "bool \<Rightarrow> nat \<Rightarrow> hash_item \<Rightarrow> string" where
  "exptime_text sticky curtime it =
     (if exptime it = 0 then ''0''
      else if sticky \<and> exptime it = STICKY_EXPTIME then ''-1''
      else if exptime it \<le> curtime then ''1''
      else decimal (exptime it - curtime))"

section \<open>Example values\<close>

text \<open>
  A small instance of the parameters, used where a statement is evaluated on concrete
  input: a header is two bytes, a kind letter (\<open>I\<close>, \<open>E\<close>, \<open>D\<close>) and the body length as
  a digit.
\<close>

definition ex_logtype :: "byte list \<Rightarrow> logtype" where
  "ex_logtype h =
     (if take 1 h = ''I'' then LOG_IT_LINK else if take 1 h = ''E'' then LOG_SNAPSHOT_ELEM
      else if take 1 h = ''D'' then LOG_SNAPSHOT_DONE else LOG_OTHER 0)"

definition ex_body_length :: "byte list \<Rightarrow> nat" where
  "ex_body_length h =
     (if drop 1 h = ''1'' then 1 else if drop 1 h = ''2'' then 2 else if drop 1 h = ''9'' then 9 else 0)"

definition ex_params :: params where
  "ex_params =
     \<lparr>ENABLE_STICKY_ITEM = True, MAX_FILEPATH_LENGTH = 256, MAX_LOG_RECORD_SIZE = 6,
      sizeof_LogHdr = 2, sizeof_SnapshotDoneLog = 2,
      lrec_link_item = (\<lambda>it. ''I2'' @ take 2 (item_get_key it @ ''__'')),
      lrec_snapshot_elem = (\<lambda>it e. ''E1'' @ take 1 (e @ ''_'')),
      lrec_snapshot_done = ''D0'',
      lrec_check_snapshot_done = (\<lambda>bs. if bs = ''D0'' then 0 else - 1),
      logtype_of = ex_logtype, body_length_of = ex_body_length\<rparr>"

definition ex_ss :: snapshot_st where
  "ex_ss =
     \<lparr>running = True, success = False, reqstop = False, mode = CHKPT_SNAPSHOT_MODE_KEY,
      snapped = 0, started = 0, stopped = 0, prefix = None, nprefix = - 1,
      file' = \<lparr>path = ''f'', fd = 3, size' = 0\<rparr>,
      buffer = \<lparr>memory = replicate 40 NUL, maxlen = 40, curlen = 0\<rparr>,
      cb_snapshot_done = None, initialized = True\<rparr>"

definition ex_sys :: sys where
  "ex_sys =
     \<lparr>fs = [''f'' \<mapsto> []], fdt = [3 \<mapsto> \<lparr>f_path = ''f'', f_off = 0\<rparr>], next_fd = 4, io = [],
      clock = 0, rel_time = 40, logged = [], trace = [], short_writes = 0\<rparr>"

text \<open>A data snapshot with a buffer of six bytes, four of them filled, and two scan rounds.\<close>

definition ex_small :: snapshot_st where
  "ex_small =
     \<lparr>running = True, success = False, reqstop = False, mode = CHKPT_SNAPSHOT_MODE_DATA,
      snapped = 0, started = 0, stopped = 0, prefix = None, nprefix = - 1,
      file' = \<lparr>path = ''f'', fd = 3, size' = 0\<rparr>,
      buffer = \<lparr>memory = ''I2ab'' @ [NUL, NUL], maxlen = 6, curlen = 4\<rparr>,
      cb_snapshot_done = None, initialized = True\<rparr>"

definition ex_batch :: scan_step where
  "ex_batch =
     \<lparr>stop_req = False, item_count = 1,
      item_array = [\<lparr>GET_ITEM_TYPE = ITEM_TYPE_KV, item_get_key = ''cd'', exptime = 0\<rparr>],
      elem_array = [[]]\<rparr>"

definition ex_end :: scan_step where
  "ex_end = \<lparr>stop_req = False, item_count = - 1, item_array = [], elem_array = []\<rparr>"

section \<open>Notions used in the statements about stopping\<close>

text \<open>
  The state after the caller of \<open>do_snapshot_stop\<close> has slept once for each element of
  \<open>others\<close>: before each sleep it sets \<open>reqstop\<close>, during the sleep the other threads make
  their change. And the calls that \<open>k\<close> sleeps leave in the trace.
\<close>

definition after_sleeps :: "snapshot_st \<Rightarrow> (snapshot_st \<Rightarrow> snapshot_st) list \<Rightarrow> snapshot_st" where
  "after_sleeps ss others = foldl (\<lambda>x other. other (x\<lparr>reqstop := True\<rparr>)) ss others"

definition sleep_events :: "nat \<Rightarrow> event list" where
  "sleep_events k = concat (replicate k [E_mutex_unlock, E_usleep 1000, E_mutex_lock])"

section \<open>Notions used in the statements about the buffer and the file\<close>

text \<open>
  \<open>buffer_ok\<close>: the block has \<open>maxlen\<close> bytes, \<open>curlen\<close> is within it, and \<open>maxlen\<close> is below
  \<open>2^31\<close> (it is \<open>SNAPSHOT_BUFFER_SIZE\<close> after \<open>chkpt_snapshot_init\<close>). \<open>at_end\<close>: the
  descriptor is open and its offset is the end of its file, as after opening with
  \<open>O_TRUNC\<close> and writing only. \<open>written\<close>: the bytes of the file behind a descriptor.
  \<open>stream\<close>: the bytes produced so far, those in the file followed by those still in the
  buffer. \<open>dump_records\<close>: the records of a batch in the order of the file, each item's link
  record followed by the records of its elements. \<open>writes_ok\<close> and \<open>put_post\<close> relate the
  states before and after a call that returned \<open>rc\<close>.
\<close>

definition writes_ok :: "int \<Rightarrow> snapshot_st \<Rightarrow> sys \<Rightarrow> snapshot_st \<Rightarrow> sys \<Rightarrow> bool" where
  "writes_ok rc ss s ss' s' \<longleftrightarrow>
     length (memory (buffer ss')) = length (memory (buffer ss))
     \<and> short_writes s \<le> short_writes s'
     \<and> (0 \<le> rc \<longrightarrow> short_writes s' = short_writes s)"


definition at_end :: "sys \<Rightarrow> int \<Rightarrow> bool" where
  "at_end s d =
     (case fdt s d of
        None \<Rightarrow> False
      | Some f \<Rightarrow> (case fs s (f_path f) of None \<Rightarrow> False | Some c \<Rightarrow> f_off f = length c))"

definition written :: "sys \<Rightarrow> int \<Rightarrow> byte list" where
  "written s d = (case fd_content s d of None \<Rightarrow> [] | Some c \<Rightarrow> c)"




section \<open>Notions used in the statements about reading\<close>

text \<open>A \<open>read\<close> of \<open>n\<close> bytes that the environment neither fails nor cuts short.\<close>

definition read_full :: "sys \<Rightarrow> nat \<Rightarrow> bool" where
  "read_full s n = (case next_io s of IO_ok \<Rightarrow> True | IO_short m \<Rightarrow> n \<le> m | IO_fail \<Rightarrow> False)"

section \<open>Notions used in the statements about replaying\<close>

text \<open>
  A record of the file is a pair of its header bytes and its body bytes. It is well formed
  when the header has the size of \<open>LogHdr\<close>, the body has the length the header declares,
  and that length is within \<open>max_body_length\<close>.
\<close>

definition record_bytes :: "byte list \<times> byte list \<Rightarrow> byte list" where
  "record_bytes r = fst r @ snd r"

definition wf_record :: "params \<Rightarrow> byte list \<times> byte list \<Rightarrow> bool" where
  "wf_record P r \<longleftrightarrow>
     length (fst r) = sizeof_LogHdr P \<and> body_length_of P (fst r) mod 2 ^ 32 = length (snd r)
     \<and> length (snd r) \<le> u32 (int (MAX_LOG_RECORD_SIZE P) - int (sizeof_LogHdr P))"

text \<open>
  The descriptor \<open>d\<close> is open on a file whose bytes from the offset on are \<open>bs\<close>, and the
  environment cuts no call short.
\<close>

definition at_stream :: "sys \<Rightarrow> int \<Rightarrow> byte list \<Rightarrow> bool" where
  "at_stream s d bs \<longleftrightarrow>
     io s = [] \<and>
     (case fdt s d of
        None \<Rightarrow> False
      | Some f \<Rightarrow> (case fs s (f_path f) of None \<Rightarrow> False | Some c \<Rightarrow> drop (f_off f) c = bs))"


text \<open>\<open>buf\<close> after a body has been read into it: the bytes behind the body stay.\<close>

definition fill :: "byte list \<Rightarrow> byte list \<Rightarrow> byte list" where
  "fill buf b = b @ drop (length b) buf"



text \<open>
  For the proofs: the bytes not yet read from a descriptor; two system states with the same
  files, where only the offset of \<open>d\<close> may have moved, forward; two states that differ only
  in the lines logged; and \<open>last_coll_it\<close> being null or a collection item.
\<close>

definition remaining :: "sys \<Rightarrow> int \<Rightarrow> nat" where
  "remaining s d =
     (case fdt s d of
        None \<Rightarrow> 0
      | Some f \<Rightarrow> (case fs s (f_path f) of None \<Rightarrow> 0 | Some c \<Rightarrow> length c - f_off f))"

definition same_files :: "sys \<Rightarrow> sys \<Rightarrow> int \<Rightarrow> bool" where
  "same_files s s' d \<longleftrightarrow>
     fs s' = fs s \<and> (fdt s' d = None) = (fdt s d = None) \<and> (\<forall>d'. d' \<noteq> d \<longrightarrow> fdt s' d' = fdt s d')
     \<and> remaining s' d \<le> remaining s d"

definition only_logged :: "sys \<Rightarrow> sys \<Rightarrow> bool" where
  "only_logged s s' \<longleftrightarrow> fs s' = fs s \<and> fdt s' = fdt s \<and> io s' = io s \<and> trace s' = trace s
     \<and> (\<exists>more. logged s' = logged s @ more)"


text \<open>
  An engine for the examples: its state counts the records redone; redoing a record with
  header \<open>I0\<close> or \<open>E0\<close> fails with the code given; every link record but \<open>I1\<close> is that of
  the list \<open>ab\<close>. And a loop state on the file \<open>f\<close> with contents \<open>c\<close>, read up to \<open>off\<close>.
\<close>

definition ex_coll :: hash_item where
  "ex_coll = \<lparr>GET_ITEM_TYPE = ITEM_TYPE_LIST, item_get_key = ''ab'', exptime = 0\<rparr>"

definition ex_engine :: "ENGINE_ERROR_CODE \<Rightarrow> nat engine_ops" where
  "ex_engine bad =
     \<lparr>eng_initialized = (\<lambda>e. True),
      lrec_redo_from_record =
        (\<lambda>lr e. if header lr = ''I0'' \<or> header lr = ''E0'' then (bad, e) else (ENGINE_SUCCESS, e + 1)),
      lrec_get_item_if_collection_link = (\<lambda>lr e. (if header lr = ''I1'' then None else Some ex_coll, e)),
      item_release = (\<lambda>it e. e)\<rparr>"

definition ex_replay :: "byte list \<Rightarrow> nat \<Rightarrow> byte list \<Rightarrow> hash_item option \<Rightarrow> nat replay_st" where
  "ex_replay c off buf it =
     \<lparr>r_engine = 0,
      r_sys = ex_sys\<lparr>fs := [''f'' \<mapsto> c], fdt := [3 \<mapsto> \<lparr>f_path = ''f'', f_off = off\<rparr>]\<rparr>,
      r_body = buf, last_coll_it = it, r_calls = []\<rparr>"

text \<open>
  The references to collection items the replay holds after a list of calls: a call of
  \<open>lrec_get_item_if_collection_link\<close> that returns an item adds a reference, a call of
  \<open>item_release\<close> gives one back. \<open>one_ref hs cs\<close> says that, starting with the references
  \<open>hs\<close>, at most one is held before and after every call of \<open>cs\<close>. \<open>ref_inv\<close> is the
  invariant of the loop: at most one reference was ever held, and the one held now is
  \<open>last_coll_it\<close>.
\<close>

fun held_step :: "hash_item list \<Rightarrow> replay_call \<Rightarrow> hash_item list" where
  "held_step hs (Call_get_item lr res) = (case res of None \<Rightarrow> hs | Some it \<Rightarrow> it # hs)"
| "held_step hs (Call_release it) = remove1 it hs"
| "held_step hs (Call_redo lr err) = hs"

fun one_ref :: "hash_item list \<Rightarrow> replay_call list \<Rightarrow> bool" where
  "one_ref hs [] = (length hs \<le> 1)"
| "one_ref hs (c # cs) = (length hs \<le> 1 \<and> one_ref (held_step hs c) cs)"

definition ref_inv :: "'e replay_st \<Rightarrow> bool" where
  "ref_inv st \<longleftrightarrow>
     one_ref [] (r_calls st)
     \<and> foldl held_step [] (r_calls st) = (case last_coll_it st of None \<Rightarrow> [] | Some it \<Rightarrow> [it])"

section \<open>Numbers in decimal\<close>

lemma decimal_length: "0 < k \<Longrightarrow> n < 10 ^ k \<Longrightarrow> length (decimal n) \<le> k"
proof (induction k arbitrary: n)
  case 0
  then show ?case by simp
next
  case (Suc k)
  show ?case
  proof (cases "n < 10")
    case True
    then show ?thesis by (simp add: decimal.simps)
  next
    case False
    with Suc.prems have k: "0 < k" by (cases k) auto
    from Suc.prems have "n div 10 < 10 ^ k" by (simp add: less_mult_imp_div_less mult.commute)
    with Suc.IH k have "length (decimal (n div 10)) \<le> k" by blast
    with False show ?thesis by (subst decimal.simps) simp
  qed
qed

lemma decimal_u32_length: "n < 2 ^ 32 \<Longrightarrow> length (decimal n) \<le> 10"
  using decimal_length [of 10 n] by simp

lemma digit_char_digits: "digit_char d \<in> set ''0123456789''"
  by (simp add: digit_char_def)

lemma decimal_digits: "set (decimal n) \<subseteq> set ''0123456789''"
proof (induction n rule: decimal.induct)
  case (1 n)
  show ?case
  proof (cases "n < 10")
    case True
    then show ?thesis using digit_char_digits [of n] by (subst decimal.simps) simp
  next
    case False
    then show ?thesis
      using 1 digit_char_digits [of "n mod 10"] by (subst decimal.simps) simp
  qed
qed

lemma digit_char_eq_0: "digit_char d = CHR ''0'' \<longleftrightarrow> d = 0"
  by (simp add: digit_char_def)

lemma decimal_eq_0: "decimal n = ''0'' \<longleftrightarrow> n = 0"
proof (cases "n < 10")
  case True
  then show ?thesis
    by (subst decimal.simps) (simp add: digit_char_eq_0)
next
  case False
  have "decimal (n div 10) \<noteq> []" by (subst decimal.simps) simp
  with False show ?thesis by (subst decimal.simps) simp
qed

section \<open>The buffer and the key lines\<close>

lemma u32_int: "n < 2 ^ 32 \<Longrightarrow> u32 (int n) = n"
proof -
  assume a: "n < 2 ^ 32"
  have "int n mod 2 ^ 32 = int (n mod 2 ^ 32)" by (simp add: zmod_int)
  also have "n mod 2 ^ 32 = n" using a by (rule mod_less)
  finally show ?thesis by (simp add: u32_def)
qed

lemma list_store_seq:
  assumes "off + length bs + length cs \<le> length m"
  shows "take (off + length bs) (take off m @ bs @ drop (off + length bs) m) @ cs @
         drop (off + length bs + length cs) (take off m @ bs @ drop (off + length bs) m)
       = take off m @ (bs @ cs) @ drop (off + length (bs @ cs)) m"
proof -
  have l: "length (take off m) = off" using assms by simp
  have A: "take (off + length bs) (take off m @ bs @ R) = take off m @ bs" for R
    using l by simp
  have B: "drop (off + length bs + length cs) (take off m @ bs @ R) = drop (length cs) R" for R
    using l by simp
  show ?thesis
    by (simp only: A B) (simp add: ac_simps)
qed

lemma buf_store_seq:
  "(case buf_store ss off bs of None \<Rightarrow> None | Some ss1 \<Rightarrow> buf_store ss1 (off + length bs) cs)
     = buf_store ss off (bs @ cs)"
proof (cases "off + length bs + length cs \<le> length (memory (buffer ss))")
  case True
  then show ?thesis
    using list_store_seq [OF True] by (simp add: buf_store_def add.assoc)
next
  case False
  then show ?thesis
    by (simp add: buf_store_def add.assoc)
qed

lemma case_bind: "(case x of None \<Rightarrow> None | Some a \<Rightarrow> f a) = Option.bind x f"
  by (cases x) simp_all

lemma buf_store_seq_bind:
  "length bs = n \<Longrightarrow>
   Option.bind (buf_store ss off bs) (\<lambda>ss1. buf_store ss1 (off + n) cs) = buf_store ss off (bs @ cs)"
  using buf_store_seq [where ss = ss and off = off and bs = bs and cs = cs] by (simp add: case_bind)

lemma item_type_string_length [simp]: "length (item_type_string t) = 1"
  by (cases t) simp_all

lemma take_1_item_type_string [simp]: "take (Suc 0) (item_type_string t) = item_type_string t"
  by (cases t) simp_all

lemma key_dump_item_eq:
  "key_dump_item sticky curtime ss it =
     (case buf_store ss (curlen (buffer ss))
             (item_type_string (GET_ITEM_TYPE it) @ '' '' @ item_get_key it @ fst (key_dump_exptime sticky curtime it)) of
        None \<Rightarrow> None
      | Some ss4 \<Rightarrow> Some ((add_curlen ss4 (snd (key_dump_exptime sticky curtime it) + int (nkey it) + 2))
                \<lparr>snapped := (snapped ss4 + 1) mod 2 ^ 64\<rparr>))"
proof -
  let ?b = "curlen (buffer ss)"
  let ?t = "item_type_string (GET_ITEM_TYPE it)"
  let ?k = "item_get_key it"
  let ?e = "fst (key_dump_exptime sticky curtime it)"
  have e1: "Option.bind (buf_store ss ?b ?t) (\<lambda>ss1. buf_store ss1 (?b + 1) '' '') = buf_store ss ?b (?t @ '' '')"
    by (rule buf_store_seq_bind) simp
  have e2: "Option.bind (buf_store ss ?b (?t @ '' '')) (\<lambda>ss2. buf_store ss2 (?b + 2) ?k)
              = buf_store ss ?b (?t @ '' '' @ ?k)"
    using buf_store_seq_bind [where ss = ss and off = ?b and bs = "?t @ '' ''" and cs = ?k and n = 2]
    by simp
  have e3: "Option.bind (buf_store ss ?b (?t @ '' '' @ ?k)) (\<lambda>ss3. buf_store ss3 (?b + 2 + nkey it) ?e)
              = buf_store ss ?b (?t @ '' '' @ ?k @ ?e)"
    using buf_store_seq_bind [where ss = ss and off = ?b and bs = "(?t @ '' '') @ ?k" and cs = ?e
        and n = "2 + nkey it"]
    by (simp add: nkey_def add.assoc)
  have "key_dump_item sticky curtime ss it =
     Option.bind (Option.bind (Option.bind (Option.bind (buf_store ss ?b ?t)
        (\<lambda>ss1. buf_store ss1 (?b + 1) '' '')) (\<lambda>ss2. buf_store ss2 (?b + 2) ?k))
        (\<lambda>ss3. buf_store ss3 (?b + 2 + nkey it) ?e))
        (\<lambda>ss4. Some ((add_curlen ss4 (snd (key_dump_exptime sticky curtime it) + int (nkey it) + 2))
                \<lparr>snapped := (snapped ss4 + 1) mod 2 ^ 64\<rparr>))"
    by (simp add: key_dump_item_def Let_def case_bind case_prod_beta del: One_nat_def)
  then show ?thesis
    by (simp only: e1 e2 e3 case_bind)
qed

lemma check_space_room:
  assumes "curlen (buffer ss) + n \<le> maxlen (buffer ss)" "maxlen (buffer ss) < 2 ^ 32"
  shows "do_snapshot_buffer_check_space ss (int n) s = Some (0, ss, s)"
proof -
  have u: "u32 (int n) = n" using assms by (intro u32_int) simp
  have "curlen (buffer ss) + n < 2 ^ 32" using assms by linarith
  then have "(curlen (buffer ss) + n) mod 2 ^ 32 = curlen (buffer ss) + n" by (rule mod_less)
  with assms(1) have "\<not> (curlen (buffer ss) + u32 (int n)) mod 2 ^ 32 > maxlen (buffer ss)"
    unfolding u by linarith
  then show ?thesis unfolding do_snapshot_buffer_check_space_def by (simp only: if_False)
qed

lemma decimal_1: "decimal (Suc 0) = ''1''"
  by (simp add: decimal.simps digit_char_def)

lemma key_dump_exptime_props:
  assumes "exptime it < 2 ^ 32"
  shows "\<exists>bytes len. key_dump_exptime sticky curtime it = (bytes, int len) \<and> len \<le> length bytes
           \<and> length bytes \<le> 13 \<and> take len bytes = '' '' @ exptime_text sticky curtime it @ [NL]"
proof -
  consider (zero) "exptime it = 0"
    | (sticky) "exptime it \<noteq> 0" "sticky \<and> exptime it = STICKY_EXPTIME"
    | (past) "exptime it \<noteq> 0" "\<not> (sticky \<and> exptime it = STICKY_EXPTIME)" "exptime it \<le> curtime"
    | (future) "exptime it \<noteq> 0" "\<not> (sticky \<and> exptime it = STICKY_EXPTIME)" "curtime < exptime it"
    by linarith
  then show ?thesis
  proof cases
    case zero
    then show ?thesis
      by (intro exI [of _ "'' 0'' @ [NL]"] exI [of _ 3]) (simp add: key_dump_exptime_def exptime_text_def)
  next
    case sticky
    then show ?thesis
      by (intro exI [of _ "'' -1'' @ [NL]"] exI [of _ 4]) (simp add: key_dump_exptime_def exptime_text_def)
  next
    case past
    then show ?thesis
      by (intro exI [of _ "'' 1'' @ [NL, NUL]"] exI [of _ 3])
         (simp add: key_dump_exptime_def exptime_text_def decimal_1)
  next
    case future
    let ?d = "exptime it - curtime"
    have "?d < 2 ^ 32" using assms by simp
    then have l: "length (decimal ?d) \<le> 10" by (rule decimal_u32_length)
    from future l show ?thesis
      by (intro exI [of _ "'' '' @ decimal ?d @ [NL, NUL]"] exI [of _ "length (decimal ?d) + 2"])
         (auto simp: key_dump_exptime_def exptime_text_def Let_def)
  qed
qed

lemma key_dump_item_effect:
  assumes mem: "length (memory (buffer ss)) = maxlen (buffer ss)"
    and room: "curlen (buffer ss) + 24 + nkey it \<le> maxlen (buffer ss)"
    and mx: "maxlen (buffer ss) < 2 ^ 32"
    and ex: "exptime it < 2 ^ 32"
  shows "\<exists>ss'. key_dump_item sticky curtime ss it = Some ss'
           \<and> buffered ss' = buffered ss @ item_type_string (GET_ITEM_TYPE it) @ '' '' @ item_get_key it
                 @ '' '' @ exptime_text sticky curtime it @ [NL]
           \<and> curlen (buffer ss') = curlen (buffer ss) + nkey it + length (exptime_text sticky curtime it) + 4
           \<and> maxlen (buffer ss') = maxlen (buffer ss)
           \<and> length (memory (buffer ss')) = maxlen (buffer ss)
           \<and> snapped ss' = (snapped ss + 1) mod 2 ^ 64
           \<and> file' ss' = file' ss"
proof -
  obtain bytes len where e: "key_dump_exptime sticky curtime it = (bytes, int len)"
    and l1: "len \<le> length bytes" and l2: "length bytes \<le> 13"
    and tk: "take len bytes = '' '' @ exptime_text sticky curtime it @ [NL]"
    using key_dump_exptime_props [OF ex] by blast
  let ?b = "curlen (buffer ss)"
  let ?m = "memory (buffer ss)"
  let ?hd = "item_type_string (GET_ITEM_TYPE it) @ '' '' @ item_get_key it"
  let ?all = "?hd @ bytes"
  have hdlen: "length ?hd = nkey it + 2" by (simp add: nkey_def)
  have fits: "?b + length ?all \<le> length ?m" using room l2 mem hdlen by simp
  define ss4 where "ss4 = ss\<lparr>buffer := (buffer ss)\<lparr>memory := take ?b ?m @ ?all @ drop (?b + length ?all) ?m\<rparr>\<rparr>"
  have st: "buf_store ss ?b ?all = Some ss4"
    using fits unfolding buf_store_def ss4_def by simp
  define ss' where "ss' = (add_curlen ss4 (int len + int (nkey it) + 2))\<lparr>snapped := (snapped ss4 + 1) mod 2 ^ 64\<rparr>"
  have run: "key_dump_item sticky curtime ss it = Some ss'"
    using st e by (simp add: key_dump_item_eq ss'_def)
  have lenlen: "len = length (exptime_text sticky curtime it) + 2"
    using arg_cong [OF tk, of length] l1 by simp
  have n32: "len + nkey it + 2 < 2 ^ 32" using room mx l1 l2 by simp
  have "int len + int (nkey it) + 2 = int (len + nkey it + 2)" by simp
  then have u: "u32 (int len + int (nkey it) + 2) = len + nkey it + 2"
    using u32_int [OF n32] by (simp only:)
  have c4: "curlen (buffer ss4) = ?b" by (simp add: ss4_def)
  have "?b + (len + nkey it + 2) < 2 ^ 32" using room mx l1 l2 by linarith
  then have md: "(?b + (len + nkey it + 2)) mod 2 ^ 32 = ?b + (len + nkey it + 2)"
    by (rule mod_less)
  have "curlen (buffer ss') = (curlen (buffer ss4) + u32 (int len + int (nkey it) + 2)) mod 2 ^ 32"
    by (simp add: ss'_def add_curlen_def)
  then have cl: "curlen (buffer ss') = ?b + (len + nkey it + 2)"
    by (simp only: c4 u md)
  have mm: "memory (buffer ss') = take ?b ?m @ ?all @ drop (?b + length ?all) ?m"
    by (simp add: ss'_def add_curlen_def ss4_def)
  have bl: "length (take ?b ?m) = ?b" using fits by simp
  have t1: "take (?b + n) (take ?b ?m @ R) = take ?b ?m @ take n R" for n R
    using bl by simp
  have t2: "take (len + nkey it + 2) ?all = ?hd @ take len bytes"
  proof -
    have "len + nkey it + 2 = length ?hd + len" using hdlen by simp
    then have "take (len + nkey it + 2) (?hd @ bytes) = ?hd @ take len bytes"
      by (simp only: take_append) simp
    then show ?thesis by simp
  qed
  have t3: "take (len + nkey it + 2) (?all @ R) = take (len + nkey it + 2) ?all" for R
    using l1 hdlen by simp
  have "buffered ss' = take ?b ?m @ ?hd @ take len bytes"
    unfolding buffered_def cl mm t1 t3 t2 ..
  then have b: "buffered ss' = buffered ss @ ?hd @ '' '' @ exptime_text sticky curtime it @ [NL]"
    unfolding tk buffered_def by simp
  have r1: "maxlen (buffer ss') = maxlen (buffer ss)"
    by (simp add: ss'_def add_curlen_def ss4_def)
  have r2: "length (memory (buffer ss')) = maxlen (buffer ss)"
    unfolding mm using fits mem by simp
  have r3: "snapped ss' = (snapped ss + 1) mod 2 ^ 64"
    by (simp add: ss'_def ss4_def)
  have r4: "file' ss' = file' ss"
    by (simp add: ss'_def add_curlen_def ss4_def)
  note rest = r1 r2 r3 r4
  show ?thesis
    using run b cl rest lenlen by simp
qed
section \<open>The key-listing encoder\<close>

text \<open>
  Claim C5. \<open>do_snapshot_key_dump\<close> on one item, with room in the buffer, appends the line
  "type, space, key, space, expiration, newline" to the buffered bytes, where the
  expiration is \<open>0\<close> for an item whose expiry time is 0, \<open>-1\<close> for a sticky item (in a
  build with sticky items), \<open>1\<close> for any other item whose expiry time is at or before
  the current time, and otherwise the difference of the expiry time and the current time
  in decimal.
\<close>

theorem key_dump_expiration_encoding:
  assumes "length (memory (buffer ss)) = maxlen (buffer ss)"
    and "curlen (buffer ss) + 24 + nkey it \<le> maxlen (buffer ss)"
    and "maxlen (buffer ss) < 2 ^ 32"
    and "exptime it < 2 ^ 32"
  shows "\<exists>ss'. do_snapshot_key_dump P ss [it] s = Some (0, ss', s)
          \<and> buffered ss' =
              buffered ss @ item_type_string (GET_ITEM_TYPE it) @ '' '' @ item_get_key it @ '' ''
                @ (if exptime it = 0 then ''0''
                   else if ENABLE_STICKY_ITEM P \<and> exptime it = STICKY_EXPTIME then ''-1''
                   else if exptime it \<le> rel_time s then ''1''
                   else decimal (exptime it - rel_time s))
                @ [NL]"
proof -
  have "curlen (buffer ss) + (24 + nkey it) \<le> maxlen (buffer ss)" using assms(2) by simp
  then have cs: "do_snapshot_buffer_check_space ss (int (24 + nkey it)) s = Some (0, ss, s)"
    using assms(3) by (rule check_space_room)
  have i: "24 + int (nkey it) = int (24 + nkey it)" by simp
  obtain ss' where k: "key_dump_item (ENABLE_STICKY_ITEM P) (rel_time s) ss it = Some ss'"
    and b: "buffered ss' = buffered ss @ item_type_string (GET_ITEM_TYPE it) @ '' '' @ item_get_key it
                 @ '' '' @ exptime_text (ENABLE_STICKY_ITEM P) (rel_time s) it @ [NL]"
    using key_dump_item_effect [OF assms, of "ENABLE_STICKY_ITEM P" "rel_time s"] by blast
  have "do_snapshot_key_dump P ss [it] s = Some (0, ss', s)"
    unfolding do_snapshot_key_dump_def key_dump_loop.simps i cs using k by simp
  with b show ?thesis unfolding exptime_text_def by blast
qed

theorem key_dump_expiration_encoding_witness:
  "\<exists>ss'. do_snapshot_key_dump ex_params ex_ss
           [\<lparr>GET_ITEM_TYPE = ITEM_TYPE_LIST, item_get_key = ''ab'', exptime = 100\<rparr>] ex_sys
         = Some (0, ss', ex_sys)
       \<and> buffered ss' = ''L ab 60'' @ [NL]"
  using key_dump_expiration_encoding [of ex_ss
      "\<lparr>GET_ITEM_TYPE = ITEM_TYPE_LIST, item_get_key = ''ab'', exptime = 100\<rparr>" ex_params ex_sys]
  by (simp add: ex_ss_def ex_sys_def ex_params_def nkey_def buffered_def STICKY_EXPTIME_def
      decimal.simps digit_char_def)

section \<open>Starting while a snapshot is running\<close>

text \<open>
  Claim C4. When \<open>running\<close> is set, \<open>do_snapshot_start\<close> and \<open>do_snapshot_direct\<close> (and,
  for every mode but \<open>CHKPT_SNAPSHOT_MODE_MAX\<close>, the external functions around them)
  return \<open>ENGINE_FAILED\<close> and the state they were given: nothing is prepared, no file is
  opened, no thread is created and nothing is waited for; one line is logged.
\<close>

theorem start_while_running:
  assumes "running ss"
  shows "do_snapshot_start P ss m pfx npfx filepath callback s
           = (ENGINE_FAILED, ss,
              logger_log EXTENSION_LOG_INFO ''Failed to start snapshot. Already started.'' s)
    \<and> do_snapshot_direct P rounds ss m pfx npfx filepath s
           = Some (ENGINE_FAILED, ss,
              logger_log EXTENSION_LOG_INFO ''Failed to start snapshot. Already started.'' s)
    \<and> (m \<noteq> CHKPT_SNAPSHOT_MODE_MAX \<longrightarrow>
         chkpt_snapshot_start P ss m pfx npfx filepath callback s
           = (ENGINE_FAILED, ss,
              emit E_mutex_unlock
                (logger_log EXTENSION_LOG_INFO ''Failed to start snapshot. Already started.''
                   (emit E_mutex_lock s)))
       \<and> chkpt_snapshot_direct P rounds ss m pfx npfx filepath s
           = Some (ENGINE_FAILED, None, ss,
              emit E_mutex_unlock
                (logger_log EXTENSION_LOG_INFO ''Failed to start snapshot. Already started.''
                   (emit E_mutex_lock s))))"
  using assms
  by (simp add: do_snapshot_start_def do_snapshot_direct_def chkpt_snapshot_start_def
      chkpt_snapshot_direct_def do_snapshot_argcheck_def)

theorem start_while_running_witness:
  "do_snapshot_start ex_params ex_ss CHKPT_SNAPSHOT_MODE_DATA None (- 1) (Some ''g'') None ex_sys
     = (ENGINE_FAILED, ex_ss,
        logger_log EXTENSION_LOG_INFO ''Failed to start snapshot. Already started.'' ex_sys)
   \<and> do_snapshot_direct ex_params [] ex_ss CHKPT_SNAPSHOT_MODE_DATA None (- 1) (Some ''g'') ex_sys
     = Some (ENGINE_FAILED, ex_ss,
        logger_log EXTENSION_LOG_INFO ''Failed to start snapshot. Already started.'' ex_sys)
   \<and> mode ex_ss = CHKPT_SNAPSHOT_MODE_KEY"
  using start_while_running [of ex_ss ex_params CHKPT_SNAPSHOT_MODE_DATA None "- 1" "Some ''g''" None
      ex_sys "[]"]
  by (simp add: ex_ss_def)

section \<open>Stopping\<close>

lemma emit_trace: "emit e s = s\<lparr>trace := trace s @ [e]\<rparr>"
  by (simp add: emit_def)

lemma stop_loop_not_running: "\<not> running ss \<Longrightarrow> stop_loop w others ss s = Some (ss, s)"
  by (simp add: stop_loop.simps)

lemma stop_loop_no_wait:
  "running ss \<Longrightarrow> stop_loop False others ss s = Some (ss\<lparr>reqstop := True\<rparr>, s)"
  by (simp add: stop_loop.simps)

lemma stop_loop_sleep:
  "running ss \<Longrightarrow>
   stop_loop True (other # rest) ss s
     = stop_loop True rest (other (ss\<lparr>reqstop := True\<rparr>))
         (s\<lparr>trace := trace s @ [E_mutex_unlock, E_usleep 1000, E_mutex_lock]\<rparr>)"
  by (subst stop_loop.simps) (simp add: emit_def)

lemma stop_loop_returns_stopped:
  "stop_loop True others ss s = Some (ss', s') \<Longrightarrow> \<not> running ss'"
proof (induction others arbitrary: ss s)
  case Nil
  then show ?case by (cases "running ss") (simp_all add: stop_loop.simps)
next
  case (Cons other rest)
  show ?case
  proof (cases "running ss")
    case True
    with Cons.prems have "stop_loop True rest (other (ss\<lparr>reqstop := True\<rparr>))
         (s\<lparr>trace := trace s @ [E_mutex_unlock, E_usleep 1000, E_mutex_lock]\<rparr>) = Some (ss', s')"
      by (simp add: stop_loop_sleep)
    then show ?thesis by (rule Cons.IH)
  next
    case False
    with Cons.prems show ?thesis by (simp add: stop_loop_not_running)
  qed
qed

lemma stop_loop_waits:
  "k \<le> length others \<Longrightarrow> \<forall>j<k. running (after_sleeps ss (take j others)) \<Longrightarrow>
   \<not> running (after_sleeps ss (take k others)) \<Longrightarrow>
   stop_loop True others ss s
     = Some (after_sleeps ss (take k others), s\<lparr>trace := trace s @ sleep_events k\<rparr>)"
proof (induction others arbitrary: ss s k)
  case Nil
  then show ?case by (simp add: after_sleeps_def stop_loop_not_running sleep_events_def)
next
  case (Cons other rest)
  show ?case
  proof (cases k)
    case 0
    with Cons.prems show ?thesis
      by (simp add: after_sleeps_def stop_loop_not_running sleep_events_def)
  next
    case (Suc k')
    let ?ss1 = "other (ss\<lparr>reqstop := True\<rparr>)"
    let ?s1 = "s\<lparr>trace := trace s @ [E_mutex_unlock, E_usleep 1000, E_mutex_lock]\<rparr>"
    have r: "running ss" using Cons.prems(2) Suc by (auto simp: after_sleeps_def dest: spec [of _ 0])
    have st: "after_sleeps ss (take (Suc j) (other # rest)) = after_sleeps ?ss1 (take j rest)" for j
      by (simp add: after_sleeps_def)
    have a: "k' \<le> length rest" using Cons.prems(1) Suc by simp
    have b: "\<forall>j<k'. running (after_sleeps ?ss1 (take j rest))"
    proof (intro allI impI)
      fix j assume "j < k'"
      then have "Suc j < k" using Suc by simp
      with Cons.prems(2) have "running (after_sleeps ss (take (Suc j) (other # rest)))" by blast
      then show "running (after_sleeps ?ss1 (take j rest))" unfolding st .
    qed
    have c: "\<not> running (after_sleeps ?ss1 (take k' rest))"
      using Cons.prems(3) unfolding Suc st .
    have "stop_loop True rest ?ss1 ?s1
            = Some (after_sleeps ?ss1 (take k' rest), ?s1\<lparr>trace := trace ?s1 @ sleep_events k'\<rparr>)"
      using a b c by (rule Cons.IH)
    moreover have "after_sleeps ss (other # take k' rest) = after_sleeps ?ss1 (take k' rest)"
      by (simp add: after_sleeps_def)
    ultimately show ?thesis
      using r Suc by (simp add: stop_loop_sleep sleep_events_def)
  qed
qed

text \<open>
  Claim C9. \<open>do_snapshot_stop\<close> returns at once, changing nothing, when no snapshot is
  running or the mode is \<open>CHKPT_SNAPSHOT_MODE_CHKPT\<close>. Otherwise it sets \<open>reqstop\<close>; without
  \<open>wait_stop\<close> it returns then. With \<open>wait_stop\<close> it unlocks, sleeps 1000 microseconds and
  locks again, once for each time it finds \<open>running\<close> set, and returns with the first state
  in which \<open>running\<close> is false; whenever it returns, \<open>running\<close> is false.
\<close>

theorem stop_request:
  "(\<not> running ss \<or> mode ss = CHKPT_SNAPSHOT_MODE_CHKPT \<longrightarrow>
      do_snapshot_stop others ss wait_stop s = Some (ss, s))
   \<and> (running ss \<and> mode ss \<noteq> CHKPT_SNAPSHOT_MODE_CHKPT \<longrightarrow>
      do_snapshot_stop others ss False s
        = Some (ss\<lparr>reqstop := True\<rparr>, logger_log EXTENSION_LOG_INFO ''Snapshot thread stopped.'' s))
   \<and> (running ss \<and> mode ss \<noteq> CHKPT_SNAPSHOT_MODE_CHKPT \<and> k \<le> length others
        \<and> (\<forall>j<k. running (after_sleeps ss (take j others)))
        \<and> \<not> running (after_sleeps ss (take k others)) \<longrightarrow>
      do_snapshot_stop others ss True s
        = Some (after_sleeps ss (take k others),
                logger_log EXTENSION_LOG_INFO ''Snapshot thread stopped.''
                  (s\<lparr>trace := trace s @ sleep_events k\<rparr>)))
   \<and> (mode ss \<noteq> CHKPT_SNAPSHOT_MODE_CHKPT \<and> do_snapshot_stop others ss True s = Some (ss', s') \<longrightarrow>
      \<not> running ss')"
proof (intro conjI impI)
  assume "\<not> running ss \<or> mode ss = CHKPT_SNAPSHOT_MODE_CHKPT"
  then show "do_snapshot_stop others ss wait_stop s = Some (ss, s)"
    by (auto simp: do_snapshot_stop_def)
next
  assume "running ss \<and> mode ss \<noteq> CHKPT_SNAPSHOT_MODE_CHKPT"
  then show "do_snapshot_stop others ss False s
        = Some (ss\<lparr>reqstop := True\<rparr>, logger_log EXTENSION_LOG_INFO ''Snapshot thread stopped.'' s)"
    by (simp add: do_snapshot_stop_def stop_loop_no_wait)
next
  assume a: "running ss \<and> mode ss \<noteq> CHKPT_SNAPSHOT_MODE_CHKPT \<and> k \<le> length others
        \<and> (\<forall>j<k. running (after_sleeps ss (take j others)))
        \<and> \<not> running (after_sleeps ss (take k others))"
  then have "stop_loop True others ss s
     = Some (after_sleeps ss (take k others), s\<lparr>trace := trace s @ sleep_events k\<rparr>)"
    by (intro stop_loop_waits) simp_all
  with a show "do_snapshot_stop others ss True s
        = Some (after_sleeps ss (take k others),
                logger_log EXTENSION_LOG_INFO ''Snapshot thread stopped.''
                  (s\<lparr>trace := trace s @ sleep_events k\<rparr>))"
    by (simp add: do_snapshot_stop_def)
next
  assume a: "mode ss \<noteq> CHKPT_SNAPSHOT_MODE_CHKPT \<and> do_snapshot_stop others ss True s = Some (ss', s')"
  show "\<not> running ss'"
  proof (cases "running ss")
    case True
    with a obtain s1 where "stop_loop True others ss s = Some (ss', s1)"
      by (auto simp: do_snapshot_stop_def split: option.splits)
    then show ?thesis by (rule stop_loop_returns_stopped)
  next
    case False
    with a show ?thesis by (simp add: do_snapshot_stop_def)
  qed
qed

theorem stop_request_witness:
  "do_snapshot_stop [\<lambda>x. x, \<lambda>x. x\<lparr>running := False\<rparr>, \<lambda>x. x] ex_ss True ex_sys
     = Some (ex_ss\<lparr>reqstop := True, running := False\<rparr>,
             logger_log EXTENSION_LOG_INFO ''Snapshot thread stopped.''
               (ex_sys\<lparr>trace := [E_mutex_unlock, E_usleep 1000, E_mutex_lock,
                                  E_mutex_unlock, E_usleep 1000, E_mutex_lock]\<rparr>))
   \<and> do_snapshot_stop [] (ex_ss\<lparr>mode := CHKPT_SNAPSHOT_MODE_CHKPT\<rparr>) True ex_sys
     = Some (ex_ss\<lparr>mode := CHKPT_SNAPSHOT_MODE_CHKPT\<rparr>, ex_sys)"
  using stop_request [of ex_ss "[\<lambda>x. x, \<lambda>x. x\<lparr>running := False\<rparr>, \<lambda>x. x]" True ex_sys 2]
    stop_request [of "ex_ss\<lparr>mode := CHKPT_SNAPSHOT_MODE_CHKPT\<rparr>" "[]" True ex_sys]
  by (simp add: ex_ss_def ex_sys_def after_sleeps_def sleep_events_def less_Suc_eq numeral_2_eq_2)

section \<open>The scan loop\<close>

lemmas sys_defs = next_io_def pop_io_def logger_log_def emit_def sys_open_trunc_def sys_close_def
  write_bytes_def sys_write_def sys_lseek_end_def sys_fsync_def

lemmas buffer_defs = u32_def buf_store_def add_curlen_def set_curlen_def buffered_def buf_write_def
  do_snapshot_buffer_check_space_def do_snapshot_buffer_flush_def

lemmas run_defs = data_put_def do_snapshot_data_dump_def do_snapshot_data_done_def
  snapshot_func_dump_def snapshot_func_done_def action_done_def do_snapshot_action_def
  IS_COLL_ITEM_def Let_def

lemmas ex_defs = ex_params_def ex_ss_def ex_sys_def ex_small_def ex_batch_def ex_end_def

lemma action_loop_zero_round:
  assumes "\<not> reqstop ss" "\<not> stop_req z" "item_count z = 0"
  shows "action_loop P e (z # rs) ss s = action_loop P e rs ss (s\<lparr>trace := trace s @ [E_scan_getnext]\<rparr>)"
  using assms by (simp add: emit_def)

lemma action_loop_zeros:
  assumes "\<not> reqstop ss" "\<forall>z\<in>set zs. item_count z = 0 \<and> \<not> stop_req z"
  shows "action_loop P e (zs @ rs) ss s
           = action_loop P e rs ss (s\<lparr>trace := trace s @ replicate (length zs) E_scan_getnext\<rparr>)"
  using assms(2)
proof (induction zs arbitrary: s)
  case Nil
  then show ?case by simp
next
  case (Cons z zs)
  have "action_loop P e ((z # zs) @ rs) ss s
          = action_loop P e (zs @ rs) ss (s\<lparr>trace := trace s @ [E_scan_getnext]\<rparr>)"
    using assms(1) Cons.prems by (simp add: emit_def)
  also have "\<dots> = action_loop P e rs ss
        ((s\<lparr>trace := trace s @ [E_scan_getnext]\<rparr>)
           \<lparr>trace := trace (s\<lparr>trace := trace s @ [E_scan_getnext]\<rparr>) @ replicate (length zs) E_scan_getnext\<rparr>)"
    using Cons.prems by (intro Cons.IH) simp
  finally show ?case by (simp add: replicate_append_same)
qed

lemma action_done_success:
  "action_done ok ss s = (ok', ss', s') \<Longrightarrow> ok' = ok \<and> success ss' = ok"
  by (auto simp: action_done_def split: if_splits prod.splits)

lemma do_snapshot_action_success:
  "do_snapshot_action P rounds ss s = Some (ok, ss', s') \<Longrightarrow> success ss' = ok"
  by (auto simp: do_snapshot_action_def Let_def split: prod.splits if_splits option.splits
      dest: action_done_success)

lemma action_loop_outcomes:
  assumes "\<not> reqstop ss"
    and "\<forall>z\<in>set zs. item_count z = 0 \<and> \<not> stop_req z"
    and "\<not> stop_req r"
    and "s0 = s\<lparr>trace := trace s @ replicate (length zs) E_scan_getnext @ [E_scan_getnext]\<rparr>"
  shows "(item_count r = - 2 \<longrightarrow>
            action_loop P e (zs @ r # rs) ss s
              = Some (False, ss,
                  logger_log EXTENSION_LOG_WARNING
                    ''The item scan function has failed by out of memory.'' s0))
       \<and> (item_count r < 0 \<and> item_count r \<noteq> - 2 \<longrightarrow>
            action_loop P e (zs @ r # rs) ss s
              = (case snapshot_func_done P (mode ss) ss (emit E_done s0) of
                   None \<Rightarrow> None
                 | Some (rc, ss1, s1) \<Rightarrow>
                     Some (0 \<le> rc, ss1,
                           if rc < 0
                           then logger_log EXTENSION_LOG_WARNING ''The snapshot done function has failed.'' s1
                           else s1)))
       \<and> (0 < item_count r \<longrightarrow>
            action_loop P e (zs @ r # rs) ss s
              = (case snapshot_func_dump P (mode ss) ss (take (nat (item_count r)) (item_array r))
                        (if e then Some (elem_array r) else None) (emit (E_dump (item_count r)) s0) of
                   None \<Rightarrow> None
                 | Some (ret, ss1, s1) \<Rightarrow>
                     if ret < 0
                     then Some (False, ss1,
                            logger_log EXTENSION_LOG_WARNING ''The snapshot dump function has failed.''
                              (emit (E_scan_release (item_count r)) s1))
                     else action_loop P e rs ss1 (emit (E_scan_release (item_count r)) s1)))"
proof -
  let ?s1 = "s\<lparr>trace := trace s @ replicate (length zs) E_scan_getnext\<rparr>"
  have z: "action_loop P e (zs @ r # rs) ss s = action_loop P e (r # rs) ss ?s1"
    using assms(1,2) by (rule action_loop_zeros)
  have s0: "emit E_scan_getnext ?s1 = s0"
    by (simp add: emit_def assms(4))
  have step: "action_loop P e (r # rs) ss ?s1 =
     (if item_count r = - 2 then
           Some (False, ss,
                 logger_log EXTENSION_LOG_WARNING ''The item scan function has failed by out of memory.'' s0)
         else if item_count r < 0 then
           (case snapshot_func_done P (mode ss) ss (emit E_done s0) of
              None \<Rightarrow> None
            | Some (rc, ss1, s1) \<Rightarrow>
                if rc < 0 then
                  Some (False, ss1,
                        logger_log EXTENSION_LOG_WARNING ''The snapshot done function has failed.'' s1)
                else Some (True, ss1, s1))
         else if item_count r > 0 then
           (case snapshot_func_dump P (mode ss) ss (take (nat (item_count r)) (item_array r))
                   (if e then Some (elem_array r) else None)
                   (emit (E_dump (item_count r)) s0) of
              None \<Rightarrow> None
            | Some (ret, ss1, s1) \<Rightarrow>
                (let s2 = emit (E_scan_release (item_count r)) s1 in
                 if ret < 0 then
                   Some (False, ss1,
                         logger_log EXTENSION_LOG_WARNING ''The snapshot dump function has failed.'' s2)
                 else action_loop P e rs ss1 s2))
         else action_loop P e rs ss s0)"
    using assms(1,3) by (simp add: s0 Let_def)
  have a: "item_count r = - 2 \<longrightarrow>
            action_loop P e (zs @ r # rs) ss s
              = Some (False, ss,
                  logger_log EXTENSION_LOG_WARNING
                    ''The item scan function has failed by out of memory.'' s0)"
    unfolding z step by simp
  have b: "item_count r < 0 \<and> item_count r \<noteq> - 2 \<longrightarrow>
            action_loop P e (zs @ r # rs) ss s
              = (case snapshot_func_done P (mode ss) ss (emit E_done s0) of
                   None \<Rightarrow> None
                 | Some (rc, ss1, s1) \<Rightarrow>
                     Some (0 \<le> rc, ss1,
                           if rc < 0
                           then logger_log EXTENSION_LOG_WARNING ''The snapshot done function has failed.'' s1
                           else s1))"
    unfolding z step by (auto split: option.splits)
  have c: "0 < item_count r \<longrightarrow>
            action_loop P e (zs @ r # rs) ss s
              = (case snapshot_func_dump P (mode ss) ss (take (nat (item_count r)) (item_array r))
                        (if e then Some (elem_array r) else None) (emit (E_dump (item_count r)) s0) of
                   None \<Rightarrow> None
                 | Some (ret, ss1, s1) \<Rightarrow>
                     if ret < 0
                     then Some (False, ss1,
                            logger_log EXTENSION_LOG_WARNING ''The snapshot dump function has failed.''
                              (emit (E_scan_release (item_count r)) s1))
                     else action_loop P e rs ss1 (emit (E_scan_release (item_count r)) s1))"
    unfolding z step by (auto simp: Let_def split: option.splits)
  from a b c show ?thesis by blast
qed

lemma action_done_trace:
  "action_done ok ss s = (ok', ss', s') \<Longrightarrow> trace s' = trace s \<and> logged s' = logged s"
  by (auto simp: action_done_def sys_lseek_end_def sys_close_def split: if_splits prod.splits option.splits)

lemma action_done_result:
  "\<exists>ss' s'. action_done ok ss s = (ok, ss', s') \<and> success ss' = ok \<and> trace s' = trace s
      \<and> logged s' = logged s"
proof -
  obtain ok' ss' s' where a: "action_done ok ss s = (ok', ss', s')" by (cases "action_done ok ss s")
  from action_done_success [OF a] action_done_trace [OF a] a show ?thesis by simp
qed

lemma do_snapshot_action_opened:
  assumes "next_io s \<noteq> IO_fail"
    and "sso = ss\<lparr>file' := (file' ss)\<lparr>fd := int (next_fd s)\<rparr>\<rparr>"
    and "c = (mode ss = CHKPT_SNAPSHOT_MODE_CHKPT)"
    and "e = (mode ss = CHKPT_SNAPSHOT_MODE_DATA \<or> mode ss = CHKPT_SNAPSHOT_MODE_CHKPT)"
  shows "do_snapshot_action P rounds ss s =
           (case action_loop P e rounds sso (emit (E_scan_open c) (snd (sys_open_trunc (path (file' ss)) s))) of
              None \<Rightarrow> None
            | Some (sd, ssa, sa) \<Rightarrow> Some (action_done sd ssa (emit (E_scan_close c sd) sa)))"
  using assms(1) unfolding assms(2,3,4)
  by (simp add: do_snapshot_action_def sys_open_trunc_def Let_def)

text \<open>
  Claim C3. \<open>do_snapshot_action\<close>, when the file opens, the scanner first returns 0 any
  number of times and then \<open>n\<close>, and no stop is requested: the rounds with 0 only call the
  scanner (the dump and done functions get the state as it was after the open). If \<open>n\<close> is
  \<open>-2\<close> the run returns false with \<open>success\<close> false, and its events are the open of the
  scan, the calls of the scanner and the close of the scan: no done and no dump function is
  called. If \<open>n\<close> is another negative number the done function of the mode is called, and
  the run returns true, with \<open>success\<close> true, exactly when that function returns 0 or more.
  If \<open>n\<close> is positive the dump function of the mode gets the first \<open>n\<close> items, the batch is
  released whatever it returns, and when it returns less than 0 the run returns false with
  \<open>success\<close> false; otherwise the run goes on with the next round. In every run the value
  returned is the one stored in \<open>success\<close>.
\<close>

theorem scan_drain_outcomes:
  assumes opened: "next_io s \<noteq> IO_fail"
    and nostop: "\<not> reqstop ss"
    and zeros: "\<forall>z\<in>set zs. item_count z = 0 \<and> \<not> stop_req z"
    and r: "\<not> stop_req r"
    and sso: "sso = ss\<lparr>file' := (file' ss)\<lparr>fd := int (next_fd s)\<rparr>\<rparr>"
    and c: "c = (mode ss = CHKPT_SNAPSHOT_MODE_CHKPT)"
    and e: "e = (mode ss = CHKPT_SNAPSHOT_MODE_DATA \<or> mode ss = CHKPT_SNAPSHOT_MODE_CHKPT)"
    and t: "t = (snd (sys_open_trunc (path (file' ss)) s))
                  \<lparr>trace := trace s @ E_scan_open c # replicate (length zs) E_scan_getnext @ [E_scan_getnext]\<rparr>"
    and n: "n = item_count r"
  shows "(n = - 2 \<longrightarrow>
            (\<exists>ss' s'. do_snapshot_action P (zs @ r # rs) ss s = Some (False, ss', s')
               \<and> \<not> success ss'
               \<and> (False, ss', s') = action_done False sso (emit (E_scan_close c False)
                     (logger_log EXTENSION_LOG_WARNING
                        ''The item scan function has failed by out of memory.'' t))
               \<and> trace s' = trace s @ E_scan_open c # replicate (length zs) E_scan_getnext
                                @ [E_scan_getnext, E_scan_close c False]))
       \<and> (n < 0 \<and> n \<noteq> - 2 \<longrightarrow>
            (case snapshot_func_done P (mode ss) sso (emit E_done t) of
               None \<Rightarrow> do_snapshot_action P (zs @ r # rs) ss s = None
             | Some (rc, ssd, sd) \<Rightarrow>
                 (\<exists>ss' s'. do_snapshot_action P (zs @ r # rs) ss s = Some (0 \<le> rc, ss', s')
                    \<and> success ss' = (0 \<le> rc)
                    \<and> (0 \<le> rc, ss', s') = action_done (0 \<le> rc) ssd (emit (E_scan_close c (0 \<le> rc))
                          (if rc < 0
                           then logger_log EXTENSION_LOG_WARNING ''The snapshot done function has failed.'' sd
                           else sd)))))
       \<and> (0 < n \<longrightarrow>
            (case snapshot_func_dump P (mode ss) sso (take (nat n) (item_array r))
                    (if e then Some (elem_array r) else None) (emit (E_dump n) t) of
               None \<Rightarrow> do_snapshot_action P (zs @ r # rs) ss s = None
             | Some (ret, ssd, sd) \<Rightarrow>
                 if ret < 0
                 then (\<exists>ss' s'. do_snapshot_action P (zs @ r # rs) ss s = Some (False, ss', s')
                         \<and> \<not> success ss'
                         \<and> (False, ss', s') = action_done False ssd (emit (E_scan_close c False)
                               (logger_log EXTENSION_LOG_WARNING ''The snapshot dump function has failed.''
                                  (emit (E_scan_release n) sd))))
                 else do_snapshot_action P (zs @ r # rs) ss s
                        = (case action_loop P e rs ssd (emit (E_scan_release n) sd) of
                             None \<Rightarrow> None
                           | Some (fin, ssa, sa) \<Rightarrow>
                               Some (action_done fin ssa (emit (E_scan_close c fin) sa)))))
       \<and> (do_snapshot_action P rounds ss s = Some (ok, ssf, sf) \<longrightarrow> success ssf = ok)"
proof -
  let ?so = "emit (E_scan_open c) (snd (sys_open_trunc (path (file' ss)) s))"
  have tr: "trace (snd (sys_open_trunc (path (file' ss)) s)) = trace s"
    by (simp add: sys_open_trunc_def pop_io_def)
  have t': "t = ?so\<lparr>trace := trace ?so @ replicate (length zs) E_scan_getnext @ [E_scan_getnext]\<rparr>"
    unfolding t by (simp add: emit_def tr)
  have ns: "\<not> reqstop sso" using nostop by (simp add: sso)
  have md: "mode sso = mode ss" by (simp add: sso)
  note run = do_snapshot_action_opened [OF opened sso c e, of P "zs @ r # rs"]
  note lp = action_loop_outcomes [OF ns zeros r t', where P = P and e = e and rs = rs, unfolded md n [symmetric]]
  have a: "n = - 2 \<longrightarrow>
            (\<exists>ss' s'. do_snapshot_action P (zs @ r # rs) ss s = Some (False, ss', s')
               \<and> \<not> success ss'
               \<and> (False, ss', s') = action_done False sso (emit (E_scan_close c False)
                     (logger_log EXTENSION_LOG_WARNING
                        ''The item scan function has failed by out of memory.'' t))
               \<and> trace s' = trace s @ E_scan_open c # replicate (length zs) E_scan_getnext
                                @ [E_scan_getnext, E_scan_close c False])"
  proof
    assume n2: "n = - 2"
    let ?x = "emit (E_scan_close c False)
                (logger_log EXTENSION_LOG_WARNING ''The item scan function has failed by out of memory.'' t)"
    from lp n2 have "action_loop P e (zs @ r # rs) sso ?so
        = Some (False, sso, logger_log EXTENSION_LOG_WARNING
                    ''The item scan function has failed by out of memory.'' t)" by blast
    then have d: "do_snapshot_action P (zs @ r # rs) ss s = Some (action_done False sso ?x)"
      unfolding run by simp
    obtain ss' s' where ad: "action_done False sso ?x = (False, ss', s')" and su: "success ss' = False"
      and tx: "trace s' = trace ?x"
      using action_done_result [of False sso ?x] by blast
    have "trace ?x = trace s @ E_scan_open c # replicate (length zs) E_scan_getnext
                                @ [E_scan_getnext, E_scan_close c False]"
      by (simp add: t emit_def logger_log_def)
    with d ad su tx show "\<exists>ss' s'. do_snapshot_action P (zs @ r # rs) ss s = Some (False, ss', s')
               \<and> \<not> success ss'
               \<and> (False, ss', s') = action_done False sso ?x
               \<and> trace s' = trace s @ E_scan_open c # replicate (length zs) E_scan_getnext
                                @ [E_scan_getnext, E_scan_close c False]"
      by simp
  qed
  have b: "n < 0 \<and> n \<noteq> - 2 \<longrightarrow>
            (case snapshot_func_done P (mode ss) sso (emit E_done t) of
               None \<Rightarrow> do_snapshot_action P (zs @ r # rs) ss s = None
             | Some (rc, ssd, sd) \<Rightarrow>
                 (\<exists>ss' s'. do_snapshot_action P (zs @ r # rs) ss s = Some (0 \<le> rc, ss', s')
                    \<and> success ss' = (0 \<le> rc)
                    \<and> (0 \<le> rc, ss', s') = action_done (0 \<le> rc) ssd (emit (E_scan_close c (0 \<le> rc))
                          (if rc < 0
                           then logger_log EXTENSION_LOG_WARNING ''The snapshot done function has failed.'' sd
                           else sd))))"
  proof
    assume nn: "n < 0 \<and> n \<noteq> - 2"
    with lp have l: "action_loop P e (zs @ r # rs) sso ?so
              = (case snapshot_func_done P (mode ss) sso (emit E_done t) of
                   None \<Rightarrow> None
                 | Some (rc, ss1, s1) \<Rightarrow>
                     Some (0 \<le> rc, ss1,
                           if rc < 0
                           then logger_log EXTENSION_LOG_WARNING ''The snapshot done function has failed.'' s1
                           else s1))" by blast
    show "case snapshot_func_done P (mode ss) sso (emit E_done t) of
               None \<Rightarrow> do_snapshot_action P (zs @ r # rs) ss s = None
             | Some (rc, ssd, sd) \<Rightarrow>
                 (\<exists>ss' s'. do_snapshot_action P (zs @ r # rs) ss s = Some (0 \<le> rc, ss', s')
                    \<and> success ss' = (0 \<le> rc)
                    \<and> (0 \<le> rc, ss', s') = action_done (0 \<le> rc) ssd (emit (E_scan_close c (0 \<le> rc))
                          (if rc < 0
                           then logger_log EXTENSION_LOG_WARNING ''The snapshot done function has failed.'' sd
                           else sd)))"
    proof (cases "snapshot_func_done P (mode ss) sso (emit E_done t)")
      case None
      with l run show ?thesis by simp
    next
      case (Some p)
      obtain rc ssd sd where p: "p = (rc, ssd, sd)" by (cases p)
      let ?x = "emit (E_scan_close c (0 \<le> rc))
                  (if rc < 0
                   then logger_log EXTENSION_LOG_WARNING ''The snapshot done function has failed.'' sd
                   else sd)"
      from l Some p have d: "do_snapshot_action P (zs @ r # rs) ss s = Some (action_done (0 \<le> rc) ssd ?x)"
        unfolding run by simp
      obtain ss' s' where ad: "action_done (0 \<le> rc) ssd ?x = (0 \<le> rc, ss', s')"
        and su: "success ss' = (0 \<le> rc)"
        using action_done_result [of "0 \<le> rc" ssd ?x] by blast
      from d ad su have "\<exists>ss' s'. do_snapshot_action P (zs @ r # rs) ss s = Some (0 \<le> rc, ss', s')
                    \<and> success ss' = (0 \<le> rc)
                    \<and> (0 \<le> rc, ss', s') = action_done (0 \<le> rc) ssd ?x" by simp
      then show ?thesis unfolding Some p by simp
    qed
  qed
  have cc: "0 < n \<longrightarrow>
            (case snapshot_func_dump P (mode ss) sso (take (nat n) (item_array r))
                    (if e then Some (elem_array r) else None) (emit (E_dump n) t) of
               None \<Rightarrow> do_snapshot_action P (zs @ r # rs) ss s = None
             | Some (ret, ssd, sd) \<Rightarrow>
                 if ret < 0
                 then (\<exists>ss' s'. do_snapshot_action P (zs @ r # rs) ss s = Some (False, ss', s')
                         \<and> \<not> success ss'
                         \<and> (False, ss', s') = action_done False ssd (emit (E_scan_close c False)
                               (logger_log EXTENSION_LOG_WARNING ''The snapshot dump function has failed.''
                                  (emit (E_scan_release n) sd))))
                 else do_snapshot_action P (zs @ r # rs) ss s
                        = (case action_loop P e rs ssd (emit (E_scan_release n) sd) of
                             None \<Rightarrow> None
                           | Some (fin, ssa, sa) \<Rightarrow>
                               Some (action_done fin ssa (emit (E_scan_close c fin) sa))))"
  proof
    assume np: "0 < n"
    let ?dump = "snapshot_func_dump P (mode ss) sso (take (nat n) (item_array r))
                    (if e then Some (elem_array r) else None) (emit (E_dump n) t)"
    from lp np have l: "action_loop P e (zs @ r # rs) sso ?so
              = (case ?dump of
                   None \<Rightarrow> None
                 | Some (ret, ss1, s1) \<Rightarrow>
                     if ret < 0
                     then Some (False, ss1,
                            logger_log EXTENSION_LOG_WARNING ''The snapshot dump function has failed.''
                              (emit (E_scan_release n) s1))
                     else action_loop P e rs ss1 (emit (E_scan_release n) s1))" by blast
    show "case ?dump of
               None \<Rightarrow> do_snapshot_action P (zs @ r # rs) ss s = None
             | Some (ret, ssd, sd) \<Rightarrow>
                 if ret < 0
                 then (\<exists>ss' s'. do_snapshot_action P (zs @ r # rs) ss s = Some (False, ss', s')
                         \<and> \<not> success ss'
                         \<and> (False, ss', s') = action_done False ssd (emit (E_scan_close c False)
                               (logger_log EXTENSION_LOG_WARNING ''The snapshot dump function has failed.''
                                  (emit (E_scan_release n) sd))))
                 else do_snapshot_action P (zs @ r # rs) ss s
                        = (case action_loop P e rs ssd (emit (E_scan_release n) sd) of
                             None \<Rightarrow> None
                           | Some (fin, ssa, sa) \<Rightarrow>
                               Some (action_done fin ssa (emit (E_scan_close c fin) sa)))"
    proof (cases ?dump)
      case None
      with l run show ?thesis by simp
    next
      case (Some p)
      obtain ret ssd sd where p: "p = (ret, ssd, sd)" by (cases p)
      show ?thesis
      proof (cases "ret < 0")
        case True
        let ?x = "emit (E_scan_close c False)
                    (logger_log EXTENSION_LOG_WARNING ''The snapshot dump function has failed.''
                       (emit (E_scan_release n) sd))"
        from l Some p True have d: "do_snapshot_action P (zs @ r # rs) ss s = Some (action_done False ssd ?x)"
          unfolding run by simp
        obtain ss' s' where ad: "action_done False ssd ?x = (False, ss', s')" and su: "success ss' = False"
          using action_done_result [of False ssd ?x] by blast
        from d ad su have "\<exists>ss' s'. do_snapshot_action P (zs @ r # rs) ss s = Some (False, ss', s')
                         \<and> \<not> success ss'
                         \<and> (False, ss', s') = action_done False ssd ?x" by simp
        then show ?thesis unfolding Some p using True by simp
      next
        case False
        from l Some p False have "action_loop P e (zs @ r # rs) sso ?so
              = action_loop P e rs ssd (emit (E_scan_release n) sd)" by simp
        then have "do_snapshot_action P (zs @ r # rs) ss s
                        = (case action_loop P e rs ssd (emit (E_scan_release n) sd) of
                             None \<Rightarrow> None
                           | Some (fin, ssa, sa) \<Rightarrow>
                               Some (action_done fin ssa (emit (E_scan_close c fin) sa)))"
          unfolding run by simp
        then show ?thesis unfolding Some p using False by simp
      qed
    qed
  qed
  have d: "do_snapshot_action P rounds ss s = Some (ok, ssf, sf) \<longrightarrow> success ssf = ok"
    using do_snapshot_action_success by blast
  show ?thesis by (rule conjI [OF a conjI [OF b conjI [OF cc d]]])
qed


theorem scan_drain_outcomes_witness:
  "map_option fst
     (do_snapshot_action ex_params
        [\<lparr>stop_req = False, item_count = 0, item_array = [], elem_array = []\<rparr>,
         \<lparr>stop_req = False, item_count = - 2, item_array = [], elem_array = []\<rparr>] ex_ss ex_sys)
     = Some False
   \<and> map_option (\<lambda>x. (success (fst (snd x)), trace (snd (snd x))))
       (do_snapshot_action ex_params
          [\<lparr>stop_req = False, item_count = 0, item_array = [], elem_array = []\<rparr>,
           \<lparr>stop_req = False, item_count = - 2, item_array = [], elem_array = []\<rparr>] ex_ss ex_sys)
     = Some (False, [E_scan_open False, E_scan_getnext, E_scan_getnext, E_scan_close False False])
   \<and> map_option (\<lambda>x. (fst x, success (fst (snd x))))
       (do_snapshot_action ex_params [ex_end] ex_small ex_sys) = Some (True, True)"
proof -
  let ?z = "\<lparr>stop_req = False, item_count = 0, item_array = [], elem_array = []\<rparr>"
  let ?r = "\<lparr>stop_req = False, item_count = - 2, item_array = [], elem_array = []\<rparr>"
  have io: "next_io ex_sys \<noteq> IO_fail" by (simp add: next_io_def ex_sys_def)
  have a: "\<not> reqstop ex_ss" by (simp add: ex_ss_def)
  have z: "\<forall>z\<in>set [?z]. item_count z = 0 \<and> \<not> stop_req z" by simp
  have r: "\<not> stop_req ?r" by simp
  have n: "- 2 = item_count ?r" by simp
  from scan_drain_outcomes [OF io a z r refl refl refl refl n, where P = ex_params and rs = "[]"
         and rounds = "[]" and ok = True and ssf = ex_ss and sf = ex_sys]
  obtain ss' s' where run: "do_snapshot_action ex_params ([?z] @ ?r # []) ex_ss ex_sys = Some (False, ss', s')"
    and su: "\<not> success ss'"
    and tr: "trace s' = trace ex_sys @ E_scan_open (mode ex_ss = CHKPT_SNAPSHOT_MODE_CHKPT)
                 # replicate (length [?z]) E_scan_getnext
                 @ [E_scan_getnext, E_scan_close (mode ex_ss = CHKPT_SNAPSHOT_MODE_CHKPT) False]"
    by blast
  have first: "do_snapshot_action ex_params [?z, ?r] ex_ss ex_sys = Some (False, ss', s')"
    using run by simp
  have tr': "trace s' = [E_scan_open False, E_scan_getnext, E_scan_getnext, E_scan_close False False]"
    using tr by (simp add: ex_ss_def ex_sys_def)
  have b: "\<not> reqstop ex_small" by (simp add: ex_small_def)
  have e: "\<not> stop_req ex_end" by (simp add: ex_end_def)
  have m: "- 1 = item_count ex_end" by (simp add: ex_end_def)
  have y: "\<forall>z\<in>set []. item_count z = 0 \<and> \<not> stop_req z" by simp
  let ?sso = "ex_small\<lparr>file' := (file' ex_small)\<lparr>fd := int (next_fd ex_sys)\<rparr>\<rparr>"
  let ?t = "(snd (sys_open_trunc (path (file' ex_small)) ex_sys))
                  \<lparr>trace := trace ex_sys @ E_scan_open (mode ex_small = CHKPT_SNAPSHOT_MODE_CHKPT)
                       # replicate (length ([]::scan_step list)) E_scan_getnext @ [E_scan_getnext]\<rparr>"
  have dn: "\<exists>ssd sd. snapshot_func_done ex_params (mode ex_small) ?sso (emit E_done ?t) = Some (0, ssd, sd)"
    by (simp add: ex_defs sys_defs buffer_defs run_defs)
  then obtain ssd sd where dn': "snapshot_func_done ex_params (mode ex_small) ?sso (emit E_done ?t) = Some (0, ssd, sd)"
    by blast
  from scan_drain_outcomes [OF io b y e refl refl refl refl m, where P = ex_params and rs = "[]"
         and rounds = "[]" and ok = True and ssf = ex_ss and sf = ex_sys] dn'
  have "\<exists>ssf sf. do_snapshot_action ex_params [ex_end] ex_small ex_sys = Some (True, ssf, sf)
            \<and> success ssf" by auto
  then have second: "map_option (\<lambda>x. (fst x, success (fst (snd x))))
       (do_snapshot_action ex_params [ex_end] ex_small ex_sys) = Some (True, True)" by auto
  from first su tr' second show ?thesis by simp
qed

section \<open>Short writes\<close>

lemma short_writes_logger_log [simp]: "short_writes (logger_log l m s) = short_writes s"
  by (simp add: logger_log_def)

lemma short_writes_emit [simp]: "short_writes (emit e s) = short_writes s"
  by (simp add: emit_def)

lemma short_writes_pop_io [simp]: "short_writes (pop_io s) = short_writes s"
  by (simp add: pop_io_def)

lemma short_writes_fsync [simp]: "short_writes (snd (sys_fsync d s)) = short_writes s"
  by (simp add: sys_fsync_def)

lemma short_writes_close [simp]: "short_writes (sys_close d s) = short_writes s"
  by (simp add: sys_close_def)

lemma short_writes_lseek_end [simp]: "short_writes (snd (sys_lseek_end d n s)) = short_writes s"
  by (simp add: sys_lseek_end_def split: option.splits)

lemma short_writes_open_trunc [simp]: "short_writes (snd (sys_open_trunc p s)) = short_writes s"
  by (simp add: sys_open_trunc_def)

lemma write_bytes_result:
  "write_bytes d bs s = (k, s') \<Longrightarrow> short_writes s' = short_writes s \<and> - 1 \<le> k \<and> k \<le> int (length bs)"
  by (auto simp: write_bytes_def Let_def split: option.splits if_splits io_outcome.splits)

lemma sys_write_result:
  assumes "sys_write d bs s = (k, s')"
  shows "- 1 \<le> k \<and> k \<le> int (length bs) \<and> short_writes s \<le> short_writes s'
          \<and> (k = int (length bs) \<longrightarrow> short_writes s' = short_writes s)"
proof -
  obtain s1 where w: "write_bytes d bs s = (k, s1)"
    and s': "s' = (if k \<noteq> int (length bs) then s1\<lparr>short_writes := short_writes s1 + 1\<rparr> else s1)"
    using assms by (auto simp: sys_write_def split: prod.splits)
  from write_bytes_result [OF w] s' show ?thesis by auto
qed

lemma u32_minus_1: "u32 (- 1) = 2 ^ 32 - 1"
  by (simp add: u32_def)

lemma buf_write_result:
  assumes "buf_write ss s = Some (k, s')" and "length (memory (buffer ss)) < 2 ^ 32 - 1"
  shows "short_writes s \<le> short_writes s'
          \<and> (u32 k = curlen (buffer ss) \<longrightarrow> short_writes s' = short_writes s)"
proof -
  have c: "curlen (buffer ss) \<le> length (memory (buffer ss))"
    and w: "sys_write (fd (file' ss)) (buffered ss) s = (k, s')"
    using assms(1) by (auto simp: buf_write_def split: if_splits)
  have l: "length (buffered ss) = curlen (buffer ss)" using c by (simp add: buffered_def)
  note r = sys_write_result [OF w, unfolded l]
  have "k = int (curlen (buffer ss))" if "u32 k = curlen (buffer ss)"
  proof (cases "k = - 1")
    case True
    with that have "curlen (buffer ss) = 2 ^ 32 - 1" by (simp add: u32_minus_1)
    with c assms(2) show ?thesis by simp
  next
    case False
    with r have k0: "0 \<le> k" by simp
    then obtain n where n: "k = int n" by (metis nonneg_int_cases)
    with r have "n \<le> curlen (buffer ss)" by simp
    with c assms(2) have "n < 2 ^ 32" by simp
    then have "u32 (int n) = n" by (rule u32_int)
    with that n show ?thesis by simp
  qed
  with r show ?thesis by blast
qed

lemma check_space_writes_ok:
  assumes "do_snapshot_buffer_check_space ss n s = Some (rc, ss', s')"
    and "length (memory (buffer ss)) < 2 ^ 32 - 1"
  shows "writes_ok rc ss s ss' s'"
proof (cases "(curlen (buffer ss) + u32 n) mod 2 ^ 32 > maxlen (buffer ss)")
  case True
  then obtain k s1 where w: "buf_write ss s = Some (k, s1)"
    using assms(1) by (auto simp: do_snapshot_buffer_check_space_def split: option.splits)
  note r = buf_write_result [OF w assms(2)]
  from assms(1) True w r show ?thesis
    by (auto simp: do_snapshot_buffer_check_space_def writes_ok_def set_curlen_def split: if_splits)
next
  case False
  with assms(1) show ?thesis
    by (simp add: do_snapshot_buffer_check_space_def writes_ok_def)
qed

lemma flush_writes_ok:
  assumes "do_snapshot_buffer_flush ss s = Some (rc, ss', s')"
    and "length (memory (buffer ss)) < 2 ^ 32 - 1"
  shows "writes_ok rc ss s ss' s'"
proof (cases "curlen (buffer ss) > 0")
  case True
  then obtain k s1 where w: "buf_write ss s = Some (k, s1)"
    using assms(1) by (auto simp: do_snapshot_buffer_flush_def split: option.splits)
  note r = buf_write_result [OF w assms(2)]
  from assms(1) True w r show ?thesis
    by (auto simp: do_snapshot_buffer_flush_def writes_ok_def set_curlen_def split: if_splits)
next
  case False
  with assms(1) show ?thesis
    by (auto simp: do_snapshot_buffer_flush_def writes_ok_def)
qed

lemma writes_ok_trans:
  "writes_ok rc1 ss s ss1 s1 \<Longrightarrow> 0 \<le> rc1 \<Longrightarrow> writes_ok rc2 ss1 s1 ss2 s2 \<Longrightarrow> writes_ok rc2 ss s ss2 s2"
  by (auto simp: writes_ok_def)

lemma writes_ok_fail:
  "writes_ok rc ss s ss' s' \<Longrightarrow> rc' < 0 \<Longrightarrow> writes_ok rc' ss s ss' s'"
  by (auto simp: writes_ok_def)

lemma writes_ok_state:
  "writes_ok rc ss s ss1 s1 \<Longrightarrow> length (memory (buffer ss2)) = length (memory (buffer ss1)) \<Longrightarrow>
   short_writes s2 = short_writes s1 \<Longrightarrow> writes_ok rc ss s ss2 s2"
  by (auto simp: writes_ok_def)

lemma writes_ok_refl: "writes_ok rc ss s ss s"
  by (simp add: writes_ok_def)

lemma writes_ok_mem: "writes_ok rc ss s ss' s' \<Longrightarrow> length (memory (buffer ss')) = length (memory (buffer ss))"
  by (simp add: writes_ok_def)

lemma buf_store_mem:
  "buf_store ss off bs = Some ss' \<Longrightarrow> length (memory (buffer ss')) = length (memory (buffer ss))"
  by (auto simp: buf_store_def split: if_splits)

lemma add_curlen_mem [simp]: "memory (buffer (add_curlen ss n)) = memory (buffer ss)"
  by (simp add: add_curlen_def)

lemma key_dump_item_mem:
  "key_dump_item sticky curtime ss it = Some ss' \<Longrightarrow>
   length (memory (buffer ss')) = length (memory (buffer ss))"
  by (auto simp: key_dump_item_eq split: option.splits dest: buf_store_mem)

lemma key_dump_loop_writes_ok:
  assumes "key_dump_loop sticky curtime ss items s = Some (rc, ss', s')"
    and "length (memory (buffer ss)) < 2 ^ 32 - 1"
  shows "writes_ok rc ss s ss' s'"
  using assms
proof (induction items arbitrary: ss s)
  case Nil
  then show ?case by (simp add: writes_ok_refl)
next
  case (Cons it items)
  from Cons.prems(1) obtain r ss1 s1
    where cs: "do_snapshot_buffer_check_space ss (24 + int (nkey it)) s = Some (r, ss1, s1)"
    by (auto split: option.splits)
  note w1 = check_space_writes_ok [OF cs Cons.prems(2)]
  show ?case
  proof (cases "r < 0")
    case True
    with Cons.prems(1) cs have "rc = - 1" "ss' = ss1" "s' = s1" by simp_all
    with w1 show ?thesis by (auto intro: writes_ok_fail)
  next
    case False
    with Cons.prems(1) cs obtain ss2 where k: "key_dump_item sticky curtime ss1 it = Some ss2"
      and l: "key_dump_loop sticky curtime ss2 items s1 = Some (rc, ss', s')"
      by (auto split: option.splits)
    have m: "length (memory (buffer ss2)) = length (memory (buffer ss))"
      using key_dump_item_mem [OF k] writes_ok_mem [OF w1] by simp
    with Cons.prems(2) have "length (memory (buffer ss2)) < 2 ^ 32 - 1" by simp
    with l have w2: "writes_ok rc ss2 s1 ss' s'" by (rule Cons.IH)
    have "writes_ok r ss s ss2 s1" using w1 m by (auto simp: writes_ok_def)
    with False w2 show ?thesis by (auto intro: writes_ok_trans)
  qed
qed

lemma data_put_writes_ok:
  assumes "data_put ss rec s = Some (rc, ss', s')"
    and "length (memory (buffer ss)) < 2 ^ 32 - 1"
  shows "writes_ok rc ss s ss' s'"
proof -
  from assms(1) obtain r ss1 s1
    where cs: "do_snapshot_buffer_check_space ss (int (length rec)) s = Some (r, ss1, s1)"
    by (auto simp: data_put_def split: option.splits)
  note w1 = check_space_writes_ok [OF cs assms(2)]
  show ?thesis
  proof (cases "r < 0")
    case True
    with assms(1) cs have "rc = - 1" "ss' = ss1" "s' = s1" by (simp_all add: data_put_def)
    with w1 show ?thesis by (auto intro: writes_ok_fail)
  next
    case False
    with assms(1) cs obtain ss2 where st: "buf_store ss1 (curlen (buffer ss1)) rec = Some ss2"
      and e: "rc = 0" "ss' = add_curlen ss2 (int (length rec))" "s' = s1"
      by (auto simp: data_put_def split: option.splits)
    from w1 False buf_store_mem [OF st] e show ?thesis by (auto simp: writes_ok_def)
  qed
qed

lemma data_dump_elems_writes_ok:
  assumes "data_dump_elems P it ss es s = Some (rc, ss', s')"
    and "length (memory (buffer ss)) < 2 ^ 32 - 1"
  shows "writes_ok rc ss s ss' s'"
  using assms
proof (induction es arbitrary: ss s)
  case Nil
  then show ?case by (simp add: writes_ok_refl)
next
  case (Cons e es)
  from Cons.prems(1) obtain r ss1 s1
    where p: "data_put ss (lrec_snapshot_elem P it e) s = Some (r, ss1, s1)"
    by (auto split: option.splits)
  note w1 = data_put_writes_ok [OF p Cons.prems(2)]
  show ?case
  proof (cases "r < 0")
    case True
    with Cons.prems(1) p have "rc = - 1" "ss' = ss1" "s' = s1" by simp_all
    with w1 show ?thesis by (auto intro: writes_ok_fail)
  next
    case False
    with Cons.prems(1) p have l: "data_dump_elems P it ss1 es s1 = Some (rc, ss', s')" by simp
    have "length (memory (buffer ss1)) < 2 ^ 32 - 1"
      using writes_ok_mem [OF w1] Cons.prems(2) by simp
    with l have "writes_ok rc ss1 s1 ss' s'" by (rule Cons.IH)
    with w1 False show ?thesis by (auto intro: writes_ok_trans)
  qed
qed

lemma data_dump_elems_rc:
  "data_dump_elems P it ss es s = Some (rc, ss', s') \<Longrightarrow> rc = 0 \<or> rc = - 1"
  by (induction es arbitrary: ss s) (auto split: option.splits if_splits)

lemma snapped_update_mem [simp]:
  "memory (buffer (ss\<lparr>snapped := n\<rparr>)) = memory (buffer ss)"
  by simp

lemma data_dump_loop_writes_ok:
  assumes "data_dump_loop P ss items erst s = Some (rc, ss', s')"
    and "length (memory (buffer ss)) < 2 ^ 32 - 1"
  shows "writes_ok rc ss s ss' s'"
  using assms
proof (induction items arbitrary: ss erst s)
  case Nil
  then show ?case by (simp add: writes_ok_refl)
next
  case (Cons it items)
  from Cons.prems(1) obtain r ss1 s1
    where p: "data_put ss (lrec_link_item P it) s = Some (r, ss1, s1)"
    by (auto split: option.splits)
  note w1 = data_put_writes_ok [OF p Cons.prems(2)]
  have m1: "length (memory (buffer ss1)) < 2 ^ 32 - 1"
    using writes_ok_mem [OF w1] Cons.prems(2) by simp
  show ?case
  proof (cases "r < 0")
    case True
    with Cons.prems(1) p have "rc = - 1" "ss' = ss1" "s' = s1" by simp_all
    with w1 show ?thesis by (auto intro: writes_ok_fail)
  next
    case r: False
    show ?thesis
    proof (cases "erst \<noteq> None \<and> IS_COLL_ITEM it")
      case True
      with Cons.prems(1) p r obtain eresult erest r' ss2 s2
        where el: "data_dump_elems P it ss1 eresult s1 = Some (r', ss2, s2)"
          and rest: "if r' = - 1 then rc = - 1 \<and> ss' = ss2 \<and> s' = s2
                     else data_dump_loop P (ss2\<lparr>snapped := (snapped ss2 + 1) mod 2 ^ 64\<rparr>) items
                            (Some erest) s2 = Some (rc, ss', s')"
        by (auto split: option.splits list.splits if_splits)
      note w2 = data_dump_elems_writes_ok [OF el m1]
      have w12: "writes_ok r' ss s ss2 s2" using w1 r w2 by (auto intro: writes_ok_trans)
      show ?thesis
      proof (cases "r' = - 1")
        case True
        with rest w12 show ?thesis by simp
      next
        case False
        with data_dump_elems_rc [OF el] have r0: "r' = 0" by simp
        let ?ss3 = "ss2\<lparr>snapped := (snapped ss2 + 1) mod 2 ^ 64\<rparr>"
        have "length (memory (buffer ?ss3)) < 2 ^ 32 - 1"
          using writes_ok_mem [OF w2] m1 by simp
        moreover have "data_dump_loop P ?ss3 items (Some erest) s2 = Some (rc, ss', s')"
          using rest False by simp
        ultimately have w3: "writes_ok rc ?ss3 s2 ss' s'" by (intro Cons.IH)
        have "writes_ok r' ss s ?ss3 s2" using w12 by (simp add: writes_ok_def)
        with r0 w3 show ?thesis by (auto intro: writes_ok_trans)
      qed
    next
      case False
      let ?ss3 = "ss1\<lparr>snapped := (snapped ss1 + 1) mod 2 ^ 64\<rparr>"
      from False Cons.prems(1) p r
      have l: "data_dump_loop P ?ss3 items (map_option tl erst) s1 = Some (rc, ss', s')"
        by auto
      have "length (memory (buffer ?ss3)) < 2 ^ 32 - 1" using m1 by simp
      with l have w3: "writes_ok rc ?ss3 s1 ss' s'" by (intro Cons.IH)
      have "writes_ok r ss s ?ss3 s1" using w1 by (simp add: writes_ok_def)
      with r w3 show ?thesis by (auto intro: writes_ok_trans)
    qed
  qed
qed

lemma data_done_writes_ok:
  assumes "do_snapshot_data_done P ss s = Some (rc, ss', s')"
    and "length (memory (buffer ss)) < 2 ^ 32 - 1"
  shows "writes_ok rc ss s ss' s'"
proof -
  from assms(1) obtain r ss1 s1
    where p: "data_put ss (lrec_snapshot_done P) s = Some (r, ss1, s1)"
    by (auto simp: do_snapshot_data_done_def split: option.splits)
  note w1 = data_put_writes_ok [OF p assms(2)]
  show ?thesis
  proof (cases "r < 0")
    case True
    with assms(1) p have "rc = - 1" "ss' = ss1" "s' = s1" by (simp_all add: do_snapshot_data_done_def)
    with w1 show ?thesis by (auto intro: writes_ok_fail)
  next
    case False
    with assms(1) p obtain r' where f: "do_snapshot_buffer_flush ss1 s1 = Some (r', ss', s')"
      and rc: "rc = (if r' < 0 then - 1 else 0)"
      by (auto simp: do_snapshot_data_done_def split: option.splits if_splits)
    have "length (memory (buffer ss1)) < 2 ^ 32 - 1"
      using writes_ok_mem [OF w1] assms(2) by simp
    note w2 = flush_writes_ok [OF f this]
    have "writes_ok r' ss s ss' s'" using w1 False w2 by (auto intro: writes_ok_trans)
    with rc show ?thesis by (auto simp: writes_ok_def)
  qed
qed

lemma key_done_writes_ok:
  assumes "do_snapshot_key_done ss s = Some (rc, ss', s')"
    and "length (memory (buffer ss)) < 2 ^ 32 - 1"
  shows "writes_ok rc ss s ss' s'"
proof -
  from assms(1) obtain r ss1 s1
    where cs: "do_snapshot_buffer_check_space ss 256 s = Some (r, ss1, s1)"
    by (auto simp: do_snapshot_key_done_def split: option.splits)
  note w1 = check_space_writes_ok [OF cs assms(2)]
  show ?thesis
  proof (cases "r < 0")
    case True
    with assms(1) cs have "rc = - 1" "ss' = ss1" "s' = s1" by (simp_all add: do_snapshot_key_done_def)
    with w1 show ?thesis by (auto intro: writes_ok_fail)
  next
    case False
    with assms(1) cs obtain ss2 n r' q where st: "buf_store ss1 (curlen (buffer ss1)) n = Some ss2"
      and f': "do_snapshot_buffer_flush (add_curlen ss2 r') s1 = Some (q, ss', s')"
      and q: "rc = (if q < 0 then - 1 else 0)"
      by (auto simp: do_snapshot_key_done_def Let_def split: option.splits if_splits)
    have m: "length (memory (buffer (add_curlen ss2 r'))) < 2 ^ 32 - 1"
      using writes_ok_mem [OF w1] assms(2) buf_store_mem [OF st] by simp
    note w2 = flush_writes_ok [OF f' m]
    have "writes_ok r ss s (add_curlen ss2 r') s1"
      using w1 buf_store_mem [OF st] by (simp add: writes_ok_def)
    with False w2 have "writes_ok q ss s ss' s'" by (auto intro: writes_ok_trans)
    with q show ?thesis by (auto simp: writes_ok_def)
  qed
qed

lemma snapshot_func_dump_writes_ok:
  assumes "snapshot_func_dump P m ss items args s = Some (rc, ss', s')"
    and "length (memory (buffer ss)) < 2 ^ 32 - 1"
  shows "writes_ok rc ss s ss' s'"
  using assms
  by (cases m)
    (auto simp: snapshot_func_dump_def do_snapshot_key_dump_def do_snapshot_data_dump_def
      intro: key_dump_loop_writes_ok data_dump_loop_writes_ok)

lemma snapshot_func_done_writes_ok:
  assumes "snapshot_func_done P m ss s = Some (rc, ss', s')"
    and "length (memory (buffer ss)) < 2 ^ 32 - 1"
  shows "writes_ok rc ss s ss' s'"
  using assms
  by (cases m)
    (auto simp: snapshot_func_done_def intro: key_done_writes_ok data_done_writes_ok)

lemma action_loop_writes_ok:
  assumes "action_loop P e rounds ss s = Some (ok, ss', s')"
    and "length (memory (buffer ss)) < 2 ^ 32 - 1"
  shows "writes_ok (if ok then 0 else - 1) ss s ss' s'"
  using assms
proof (induction rounds arbitrary: ss s)
  case Nil
  then show ?case by simp
next
  case (Cons r rs)
  let ?ss0 = "if stop_req r then ss\<lparr>reqstop := True\<rparr> else ss"
  let ?s0 = "emit E_scan_getnext s"
  have m0: "length (memory (buffer ?ss0)) = length (memory (buffer ss))" by simp
  show ?case
  proof (cases "reqstop ?ss0")
    case True
    with Cons.prems(1) show ?thesis by (auto simp: writes_ok_def split: if_splits)
  next
    case nostop: False
    consider (oom) "item_count r = - 2" | (fin) "item_count r < 0" "item_count r \<noteq> - 2"
      | (zero) "item_count r = 0" | (batch) "0 < item_count r"
      by linarith
    then show ?thesis
    proof cases
      case oom
      with Cons.prems(1) nostop show ?thesis by (auto simp: writes_ok_def Let_def split: if_splits)
    next
      case fin
      with Cons.prems(1) nostop obtain rc ss1 s1
        where d: "snapshot_func_done P (mode ?ss0) ?ss0 (emit E_done ?s0) = Some (rc, ss1, s1)"
          and res: "ok = (\<not> rc < 0)" "ss' = ss1"
            "short_writes s' = short_writes s1"
        by (auto simp: Let_def split: if_splits option.splits)
      have "length (memory (buffer ?ss0)) < 2 ^ 32 - 1" using Cons.prems(2) by simp
      note w = snapshot_func_done_writes_ok [OF d this]
      with res show ?thesis by (auto simp: writes_ok_def)
    next
      case zero
      with Cons.prems(1) nostop have l: "action_loop P e rs ?ss0 ?s0 = Some (ok, ss', s')"
        by (auto simp: Let_def split: if_splits)
      have "length (memory (buffer ?ss0)) < 2 ^ 32 - 1" using Cons.prems(2) by simp
      with l have "writes_ok (if ok then 0 else - 1) ?ss0 ?s0 ss' s'" by (rule Cons.IH)
      then show ?thesis by (auto simp: writes_ok_def split: if_splits)
    next
      case batch
      with Cons.prems(1) nostop obtain ret ss1 s1
        where d: "snapshot_func_dump P (mode ?ss0) ?ss0 (take (nat (item_count r)) (item_array r))
                   (if e then Some (elem_array r) else None)
                   (emit (E_dump (item_count r)) ?s0) = Some (ret, ss1, s1)"
          and res: "if ret < 0 then \<not> ok \<and> ss' = ss1 \<and> short_writes s' = short_writes s1
                    else action_loop P e rs ss1 (emit (E_scan_release (item_count r)) s1) = Some (ok, ss', s')"
        by (auto simp: Let_def split: if_splits option.splits)
      have m: "length (memory (buffer ?ss0)) < 2 ^ 32 - 1" using Cons.prems(2) by simp
      note w = snapshot_func_dump_writes_ok [OF d m]
      show ?thesis
      proof (cases "ret < 0")
        case True
        with res w show ?thesis by (auto simp: writes_ok_def)
      next
        case False
        with res have l: "action_loop P e rs ss1 (emit (E_scan_release (item_count r)) s1) = Some (ok, ss', s')"
          by simp
        have "length (memory (buffer ss1)) < 2 ^ 32 - 1" using writes_ok_mem [OF w] m by simp
        with l have "writes_ok (if ok then 0 else - 1) ss1 (emit (E_scan_release (item_count r)) s1) ss' s'"
          by (rule Cons.IH)
        with w False show ?thesis by (auto simp: writes_ok_def split: if_splits)
      qed
    qed
  qed
qed

lemma action_done_short_writes:
  "action_done ok ss s = (ok', ss', s') \<Longrightarrow> short_writes s' = short_writes s"
proof -
  assume a: "action_done ok ss s = (ok', ss', s')"
  show ?thesis
  proof (cases "fd (file' ss) > 0")
    case True
    with a have "s' = sys_close (fd (file' ss)) (snd (sys_lseek_end (fd (file' ss)) 0 s))"
      by (auto simp: action_done_def split: prod.splits)
    then show ?thesis by simp
  next
    case False
    with a show ?thesis by (simp add: action_done_def)
  qed
qed

lemma do_snapshot_action_short_writes:
  assumes "do_snapshot_action P rounds ss s = Some (ok, ss', s')"
    and "length (memory (buffer ss)) < 2 ^ 32 - 1"
    and "short_writes s' \<noteq> short_writes s"
  shows "\<not> ok"
proof -
  obtain d s1 where o: "sys_open_trunc (path (file' ss)) s = (d, s1)" by (cases "sys_open_trunc (path (file' ss)) s")
  then have s1: "short_writes s1 = short_writes s"
    using short_writes_open_trunc [of "path (file' ss)" s] by simp
  let ?ss1 = "ss\<lparr>file' := (file' ss)\<lparr>fd := d\<rparr>\<rparr>"
  show ?thesis
  proof (cases "d < 0")
    case True
    with assms(1) o have "action_done False ?ss1
                     (logger_log EXTENSION_LOG_WARNING ''Failed to open the snapshot file.'' s1) = (ok, ss', s')"
      by (simp add: do_snapshot_action_def)
    from action_done_success [OF this] show ?thesis by simp
  next
    case False
    let ?c = "mode ?ss1 = CHKPT_SNAPSHOT_MODE_CHKPT"
    let ?e = "mode ?ss1 = CHKPT_SNAPSHOT_MODE_DATA \<or> mode ?ss1 = CHKPT_SNAPSHOT_MODE_CHKPT"
    from False assms(1) o obtain sd ss2 s2
      where l: "action_loop P ?e rounds ?ss1 (emit (E_scan_open ?c) s1) = Some (sd, ss2, s2)"
        and a: "action_done sd ss2 (emit (E_scan_close ?c sd) s2) = (ok, ss', s')"
      by (auto simp: do_snapshot_action_def Let_def split: option.splits)
    have "length (memory (buffer ?ss1)) < 2 ^ 32 - 1" using assms(2) by simp
    note w = action_loop_writes_ok [OF l this]
    from action_done_success [OF a] have ok: "ok = sd" by simp
    from action_done_short_writes [OF a] have "short_writes s' = short_writes s2" by simp
    with w s1 assms(3) ok show ?thesis by (auto simp: writes_ok_def split: if_splits)
  qed
qed

section \<open>The bytes in the file and in the buffer\<close>

lemma at_end_same: "fs s' = fs s \<Longrightarrow> fdt s' = fdt s \<Longrightarrow> at_end s' d = at_end s d"
  by (simp add: at_end_def cong: option.case_cong)

lemma written_same: "fs s' = fs s \<Longrightarrow> fdt s' = fdt s \<Longrightarrow> written s' d = written s d"
  by (simp add: written_def fd_content_def cong: option.case_cong)

lemma at_end_logger_log [simp]: "at_end (logger_log l m s) d = at_end s d"
  by (rule at_end_same) (simp_all add: logger_log_def)

lemma written_logger_log [simp]: "written (logger_log l m s) d = written s d"
  by (rule written_same) (simp_all add: logger_log_def)

lemma write_bytes_append:
  assumes "at_end s d" and "write_bytes d bs s = (k, s')"
  shows "at_end s' d \<and> written s' d = written s d @ take (nat k) bs"
proof -
  from assms(1) obtain f c where f: "fdt s d = Some f" and c: "fs s (f_path f) = Some c"
    and o: "f_off f = length c"
    by (auto simp: at_end_def split: option.splits)
  show ?thesis
  proof (cases "next_io s = IO_fail")
    case True
    with assms(2) f c o show ?thesis
      by (auto simp: write_bytes_def at_end_def written_def fd_content_def pop_io_def)
  next
    case False
    define n where "n = (case next_io s of IO_short m \<Rightarrow> min m (length bs) | _ \<Rightarrow> length bs)"
    from False assms(2) f c o have k: "k = int n"
      and s': "s' = (pop_io s)\<lparr>fs := (fs s)(f_path f \<mapsto> c @ take n bs),
                                 fdt := (fdt s)(d \<mapsto> f\<lparr>f_off := length c + n\<rparr>)\<rparr>"
      by (auto simp: write_bytes_def Let_def n_def)
    have "n \<le> length bs" by (simp add: n_def split: io_outcome.splits)
    then show ?thesis
      using f c o by (simp add: s' k at_end_def written_def fd_content_def pop_io_def)
  qed
qed

lemma sys_write_append:
  assumes "at_end s d" and "sys_write d bs s = (k, s')"
  shows "at_end s' d \<and> written s' d = written s d @ take (nat k) bs"
proof -
  obtain s1 where w: "write_bytes d bs s = (k, s1)"
    and s': "s' = (if k \<noteq> int (length bs) then s1\<lparr>short_writes := short_writes s1 + 1\<rparr> else s1)"
    using assms(2) by (auto simp: sys_write_def split: prod.splits)
  have "at_end s' d = at_end s1 d" "written s' d = written s1 d"
    by (rule at_end_same written_same; simp add: s')+
  with write_bytes_append [OF assms(1) w] show ?thesis by simp
qed

lemma fsync_at_end [simp]: "at_end (snd (sys_fsync d' s)) d = at_end s d"
  by (rule at_end_same) (simp_all add: sys_fsync_def pop_io_def)

lemma fsync_written [simp]: "written (snd (sys_fsync d' s)) d = written s d"
  by (rule written_same) (simp_all add: sys_fsync_def pop_io_def)

lemma sys_write_short:
  assumes "sys_write d bs s = (k, s')"
  shows "short_writes s' = short_writes s + (if k = int (length bs) then 0 else 1)"
proof -
  obtain s1 where w: "write_bytes d bs s = (k, s1)"
    and s': "s' = (if k \<noteq> int (length bs) then s1\<lparr>short_writes := short_writes s1 + 1\<rparr> else s1)"
    using assms by (auto simp: sys_write_def split: prod.splits)
  from write_bytes_result [OF w] s' show ?thesis by auto
qed

















section \<open>Failing writes and failing syncs\<close>

lemma check_space_cases:
  "do_snapshot_buffer_check_space ss n s = Some (rc, ss1, s1) \<Longrightarrow> rc = 0 \<or> (rc = - 1 \<and> ss1 = ss)"
  by (auto simp: do_snapshot_buffer_check_space_def split: if_splits option.splits)

lemma flush_cases:
  "do_snapshot_buffer_flush ss s = Some (rc, ss1, s1) \<Longrightarrow> rc = 0 \<or> (rc = - 1 \<and> ss1 = ss)"
  by (auto simp: do_snapshot_buffer_flush_def split: if_splits option.splits)

lemma buf_write_full:
  assumes "buf_write ss s = Some (k, s')" and "length (memory (buffer ss)) < 2 ^ 32 - 1"
    and "short_writes s' = short_writes s"
  shows "u32 k = curlen (buffer ss)"
proof -
  have c: "curlen (buffer ss) \<le> length (memory (buffer ss))"
    and w: "sys_write (fd (file' ss)) (buffered ss) s = (k, s')"
    using assms(1) by (auto simp: buf_write_def split: if_splits)
  have l: "length (buffered ss) = curlen (buffer ss)" using c by (simp add: buffered_def)
  from sys_write_short [OF w] assms(3) l have "k = int (curlen (buffer ss))"
    by (auto split: if_splits)
  moreover have "curlen (buffer ss) < 2 ^ 32" using c assms(2) by simp
  ultimately show ?thesis by (simp add: u32_int)
qed

lemma flush_full:
  assumes "do_snapshot_buffer_flush ss s = Some (rc, ss1, s1)"
    and "length (memory (buffer ss)) < 2 ^ 32 - 1"
    and "short_writes s1 = short_writes s"
  shows "rc = 0"
proof (cases "curlen (buffer ss) > 0")
  case True
  then obtain k s' where w: "buf_write ss s = Some (k, s')"
    using assms(1) by (auto simp: do_snapshot_buffer_flush_def split: option.splits)
  show ?thesis
  proof (cases "u32 k = curlen (buffer ss)")
    case True
    with assms(1) w \<open>curlen (buffer ss) > 0\<close> show ?thesis
      by (simp add: do_snapshot_buffer_flush_def)
  next
    case False
    with assms(1) w \<open>curlen (buffer ss) > 0\<close> have "short_writes s1 = short_writes s'"
      by (auto simp: do_snapshot_buffer_flush_def)
    with assms(3) buf_write_full [OF w assms(2)] False show ?thesis by simp
  qed
next
  case False
  with assms(1) show ?thesis by (simp add: do_snapshot_buffer_flush_def)
qed

lemma buf_write_append:
  assumes "at_end s (fd (file' ss))" and "buf_write ss s = Some (k, s')"
  shows "at_end s' (fd (file' ss)) \<and> (\<exists>w. written s' (fd (file' ss)) = written s (fd (file' ss)) @ w)"
proof -
  have "sys_write (fd (file' ss)) (buffered ss) s = (k, s')"
    using assms(2) by (auto simp: buf_write_def split: if_splits)
  from sys_write_append [OF assms(1) this] show ?thesis by blast
qed

lemma check_space_append:
  assumes "at_end s (fd (file' ss))" and "do_snapshot_buffer_check_space ss n s = Some (rc, ss1, s1)"
  shows "\<exists>w. written s1 (fd (file' ss)) = written s (fd (file' ss)) @ w"
proof (cases "(curlen (buffer ss) + u32 n) mod 2 ^ 32 > maxlen (buffer ss)")
  case True
  then obtain k s' where w: "buf_write ss s = Some (k, s')"
    and s1: "written s1 (fd (file' ss)) = written s' (fd (file' ss))"
    using assms(2) by (auto simp: do_snapshot_buffer_check_space_def split: option.splits if_splits)
  with buf_write_append [OF assms(1) w] show ?thesis by auto
next
  case False
  with assms(2) show ?thesis by (simp add: do_snapshot_buffer_check_space_def)
qed

lemma flush_append:
  assumes "at_end s (fd (file' ss))" and "do_snapshot_buffer_flush ss s = Some (rc, ss1, s1)"
  shows "\<exists>w. written s1 (fd (file' ss)) = written s (fd (file' ss)) @ w"
proof (cases "curlen (buffer ss) > 0")
  case True
  then obtain k s' where w: "buf_write ss s = Some (k, s')"
    and s1: "written s1 (fd (file' ss)) = written s' (fd (file' ss))"
    using assms(2) by (auto simp: do_snapshot_buffer_flush_def split: option.splits if_splits)
  with buf_write_append [OF assms(1) w] show ?thesis by auto
next
  case False
  with assms(2) show ?thesis by (auto simp: do_snapshot_buffer_flush_def)
qed

text \<open>
  Claim C7, as amended. A write that returns another count than it was given makes
  \<open>do_snapshot_buffer_check_space\<close> and \<open>do_snapshot_buffer_flush\<close> return -1 with the buffer
  as it was, and makes \<open>do_snapshot_action\<close> end with \<open>success\<close> false; both functions only
  append to the file, so what was written stays. The result of \<open>fsync\<close> is not looked at:
  without a short write \<open>do_snapshot_buffer_flush\<close> returns 0.
\<close>

theorem short_write_fails_run:
  assumes "length (memory (buffer ss)) < 2 ^ 32 - 1"
  shows "(do_snapshot_buffer_check_space ss n s = Some (rc, ssw, sw) \<longrightarrow>
            (short_writes sw \<noteq> short_writes s \<longrightarrow> rc = - 1 \<and> ssw = ss)
          \<and> (at_end s (fd (file' ss)) \<longrightarrow>
               (\<exists>w. written sw (fd (file' ss)) = written s (fd (file' ss)) @ w)))
       \<and> (do_snapshot_buffer_flush ss s = Some (rc, ssw, sw) \<longrightarrow>
            (short_writes sw \<noteq> short_writes s \<longrightarrow> rc = - 1 \<and> ssw = ss)
          \<and> (short_writes sw = short_writes s \<longrightarrow> rc = 0)
          \<and> (at_end s (fd (file' ss)) \<longrightarrow>
               (\<exists>w. written sw (fd (file' ss)) = written s (fd (file' ss)) @ w)))
       \<and> (do_snapshot_action P rounds ss s = Some (ok, ss', s') \<and> short_writes s' \<noteq> short_writes s \<longrightarrow>
            \<not> ok \<and> \<not> success ss')"
proof -
  have c1: "do_snapshot_buffer_check_space ss n s = Some (rc, ssw, sw) \<longrightarrow>
            (short_writes sw \<noteq> short_writes s \<longrightarrow> rc = - 1 \<and> ssw = ss)
          \<and> (at_end s (fd (file' ss)) \<longrightarrow>
               (\<exists>w. written sw (fd (file' ss)) = written s (fd (file' ss)) @ w))"
  proof
    assume a: "do_snapshot_buffer_check_space ss n s = Some (rc, ssw, sw)"
    have "rc = - 1 \<and> ssw = ss" if "short_writes sw \<noteq> short_writes s"
    proof -
      from that check_space_writes_ok [OF a assms] have "rc < 0" by (auto simp: writes_ok_def)
      with check_space_cases [OF a] show ?thesis by linarith
    qed
    moreover have "\<exists>w. written sw (fd (file' ss)) = written s (fd (file' ss)) @ w"
      if "at_end s (fd (file' ss))"
      using that a by (rule check_space_append)
    ultimately show "(short_writes sw \<noteq> short_writes s \<longrightarrow> rc = - 1 \<and> ssw = ss)
          \<and> (at_end s (fd (file' ss)) \<longrightarrow>
               (\<exists>w. written sw (fd (file' ss)) = written s (fd (file' ss)) @ w))"
      by blast
  qed
  have c2: "do_snapshot_buffer_flush ss s = Some (rc, ssw, sw) \<longrightarrow>
            (short_writes sw \<noteq> short_writes s \<longrightarrow> rc = - 1 \<and> ssw = ss)
          \<and> (short_writes sw = short_writes s \<longrightarrow> rc = 0)
          \<and> (at_end s (fd (file' ss)) \<longrightarrow>
               (\<exists>w. written sw (fd (file' ss)) = written s (fd (file' ss)) @ w))"
  proof
    assume a: "do_snapshot_buffer_flush ss s = Some (rc, ssw, sw)"
    have "rc = - 1 \<and> ssw = ss" if "short_writes sw \<noteq> short_writes s"
    proof -
      from that flush_writes_ok [OF a assms] have "rc < 0" by (auto simp: writes_ok_def)
      with flush_cases [OF a] show ?thesis by linarith
    qed
    moreover have "rc = 0" if "short_writes sw = short_writes s"
      using a assms that by (rule flush_full)
    moreover have "\<exists>w. written sw (fd (file' ss)) = written s (fd (file' ss)) @ w"
      if "at_end s (fd (file' ss))"
      using that a by (rule flush_append)
    ultimately show "(short_writes sw \<noteq> short_writes s \<longrightarrow> rc = - 1 \<and> ssw = ss)
          \<and> (short_writes sw = short_writes s \<longrightarrow> rc = 0)
          \<and> (at_end s (fd (file' ss)) \<longrightarrow>
               (\<exists>w. written sw (fd (file' ss)) = written s (fd (file' ss)) @ w))"
      by blast
  qed
  have c3: "do_snapshot_action P rounds ss s = Some (ok, ss', s') \<and> short_writes s' \<noteq> short_writes s \<longrightarrow>
            \<not> ok \<and> \<not> success ss'"
  proof
    assume a: "do_snapshot_action P rounds ss s = Some (ok, ss', s') \<and> short_writes s' \<noteq> short_writes s"
    then have r: "do_snapshot_action P rounds ss s = Some (ok, ss', s')"
      and n: "short_writes s' \<noteq> short_writes s" by simp_all
    from r assms n have "\<not> ok" by (rule do_snapshot_action_short_writes)
    moreover from do_snapshot_action_success [OF r] have "success ss' = ok" .
    ultimately show "\<not> ok \<and> \<not> success ss'" by simp
  qed
  show ?thesis by (rule conjI [OF c1 conjI [OF c2 c3]])
qed

theorem short_write_fails_run_witness:
  "length (memory (buffer ex_small)) < 2 ^ 32 - 1
   \<and> (\<exists>rc ss1 s1. do_snapshot_buffer_flush ex_small (ex_sys\<lparr>io := [IO_short 1]\<rparr>) = Some (rc, ss1, s1)
          \<and> short_writes s1 = 1 \<and> written s1 3 = ''I'' \<and> rc = - 1 \<and> ss1 = ex_small)
   \<and> (\<exists>ok ss' s'. do_snapshot_action ex_params [ex_end] ex_small (ex_sys\<lparr>io := [IO_ok, IO_short 1]\<rparr>)
            = Some (ok, ss', s')
          \<and> short_writes s' = 1 \<and> fs s' ''f'' = Some ''I'' \<and> \<not> ok \<and> \<not> success ss')"
proof -
  let ?s = "ex_sys\<lparr>io := [IO_short 1]\<rparr>"
  let ?t = "ex_sys\<lparr>io := [IO_ok, IO_short 1]\<rparr>"
  have m: "length (memory (buffer ex_small)) < 2 ^ 32 - 1" by (simp add: ex_small_def)
  have "\<exists>rc ss1 s1. do_snapshot_buffer_flush ex_small ?s = Some (rc, ss1, s1)
          \<and> short_writes s1 = 1 \<and> written s1 3 = ''I''"
    by (simp add: ex_defs sys_defs buffer_defs written_def fd_content_def)
  then obtain rc ss1 s1 where f: "do_snapshot_buffer_flush ex_small ?s = Some (rc, ss1, s1)"
    and sw: "short_writes s1 = 1" and wr: "written s1 3 = ''I''" by blast
  have "short_writes s1 \<noteq> short_writes ?s" using sw by (simp add: ex_sys_def)
  with short_write_fails_run [where ss = ex_small and s = ?s and rc = rc and ssw = ss1 and sw = s1, OF m] f
  have r: "rc = - 1 \<and> ss1 = ex_small" by blast
  have "\<exists>ss' s'. do_snapshot_action ex_params [ex_end] ex_small ?t = Some (False, ss', s')
          \<and> short_writes s' = 1 \<and> fs s' ''f'' = Some ''I''"
    by (simp add: ex_defs sys_defs buffer_defs run_defs)
  then obtain ok ss' s' where a: "do_snapshot_action ex_params [ex_end] ex_small ?t = Some (ok, ss', s')"
    and sw': "short_writes s' = 1" and fs': "fs s' ''f'' = Some ''I''" by blast
  have "short_writes s' \<noteq> short_writes ?t" using sw' by (simp add: ex_sys_def)
  with short_write_fails_run [where ss = ex_small and s = ?t and P = ex_params and rounds = "[ex_end]"
      and ok = ok and ss' = ss' and s' = s', OF m] a
  have r': "\<not> ok \<and> \<not> success ss'" by blast
  from m f sw wr r a sw' fs' r' show ?thesis by blast
qed

text \<open>
  The claim as first stated also has a failing \<open>fsync\<close> abort the run. It does not: here
  \<open>fsync\<close> fails, \<open>do_snapshot_buffer_flush\<close> returns 0 and the run ends with \<open>success\<close> set.
\<close>

theorem sync_failure_not_reported:
  "fst (sys_fsync 3 (ex_sys\<lparr>io := [IO_fail]\<rparr>)) = - 1
   \<and> map_option fst (do_snapshot_buffer_flush ex_ss (ex_sys\<lparr>io := [IO_fail]\<rparr>)) = Some 0
   \<and> map_option fst (do_snapshot_action ex_params [ex_end] ex_small
                        (ex_sys\<lparr>io := [IO_ok, IO_ok, IO_fail]\<rparr>)) = Some True
   \<and> map_option (success \<circ> fst \<circ> snd)
         (do_snapshot_action ex_params [ex_end] ex_small
            (ex_sys\<lparr>io := [IO_ok, IO_ok, IO_fail]\<rparr>)) = Some True
   \<and> map_option (io \<circ> snd \<circ> snd)
         (do_snapshot_action ex_params [ex_end] ex_small
            (ex_sys\<lparr>io := [IO_ok, IO_ok, IO_fail]\<rparr>)) = Some []"
  by (simp add: ex_defs sys_defs buffer_defs run_defs)

section \<open>Checking that a snapshot file is complete\<close>

lemma sys_lseek_end_file:
  assumes "fdt s d = Some f" "fs s (f_path f) = Some c"
  shows "sys_lseek_end d delta s =
           (if int (length c) + delta < 0 then (- 1, s)
            else (int (length c) + delta,
                  s\<lparr>fdt := (fdt s)(d \<mapsto> f\<lparr>f_off := nat (int (length c) + delta)\<rparr>)\<rparr>))"
  using assms by (simp add: sys_lseek_end_def)

lemma sys_read_file:
  assumes "fdt s d = Some f" "fs s (f_path f) = Some c"
  shows "sys_read d n s =
           (if next_io s = IO_fail then (- 1, [], pop_io s)
            else
              (let k = (case next_io s of IO_short m \<Rightarrow> min m n | _ \<Rightarrow> n);
                   bs = take k (drop (f_off f) c)
               in (int (length bs), bs,
                   (pop_io s)\<lparr>fdt := (fdt s)(d \<mapsto> f\<lparr>f_off := f_off f + length bs\<rparr>)\<rparr>)))"
  using assms by (simp add: sys_read_def)

text \<open>
  Claim C1. \<open>chkpt_snapshot_check_file_validity\<close> on a descriptor of a file with contents
  \<open>c\<close>, where \<open>n\<close> is the size of a SnapshotDone record: when the file is shorter than
  \<open>n\<close> the seek fails and the result is \<open>-1\<close>; when the read is failed or cut short the
  result is \<open>-1\<close>; otherwise the last \<open>n\<close> bytes are read, the result is what
  \<open>lrec_check_snapshot_done\<close> says of them, \<open>*filesize\<close> is the offset of that record plus
  \<open>n\<close>, which is the length of the file, and the descriptor is back at offset \<open>0\<close>. With
  reads that are not cut short, the result is \<open>0\<close> exactly when the file ends with \<open>n\<close>
  bytes that \<open>lrec_check_snapshot_done\<close> accepts.
\<close>

theorem check_file_validity_result:
  assumes "0 < d" and "fdt s d = Some f" and "fs s (f_path f) = Some c" and "length c < 2 ^ 64"
    and "n = sizeof_SnapshotDoneLog P"
  shows "(length c < n \<longrightarrow> chkpt_snapshot_check_file_validity P d filesize s = Some (- 1, filesize, s))
       \<and> (n \<le> length c \<and> \<not> read_full s n \<longrightarrow>
            (\<exists>s'. chkpt_snapshot_check_file_validity P d filesize s = Some (- 1, filesize, s')))
       \<and> (n \<le> length c \<and> read_full s n \<longrightarrow>
            chkpt_snapshot_check_file_validity P d filesize s
              = Some (lrec_check_snapshot_done P (drop (length c - n) c), length c,
                      (pop_io s)\<lparr>fdt := (fdt s)(d \<mapsto> f\<lparr>f_off := 0\<rparr>)\<rparr>))
       \<and> (read_full s n \<longrightarrow>
            ((\<exists>fsz s'. chkpt_snapshot_check_file_validity P d filesize s = Some (0, fsz, s'))
               \<longleftrightarrow> n \<le> length c \<and> lrec_check_snapshot_done P (drop (length c - n) c) = 0))"
proof -
  let ?V = "chkpt_snapshot_check_file_validity P d filesize s"
  have seek: "sys_lseek_end d (- int n) s =
           (if length c < n then (- 1, s)
            else (int (length c - n), s\<lparr>fdt := (fdt s)(d \<mapsto> f\<lparr>f_off := length c - n\<rparr>)\<rparr>))"
    using sys_lseek_end_file [OF assms(2,3), of "- int n"] by (auto simp: nat_diff_distrib')
  have c1: "length c < n \<longrightarrow> ?V = Some (- 1, filesize, s)"
    using assms(1) seek by (simp add: chkpt_snapshot_check_file_validity_def assms(5) [symmetric])
  let ?s1 = "s\<lparr>fdt := (fdt s)(d \<mapsto> f\<lparr>f_off := length c - n\<rparr>)\<rparr>"
  let ?f1 = "f\<lparr>f_off := length c - n\<rparr>"
  have f1: "fdt ?s1 d = Some ?f1" "fs ?s1 (f_path ?f1) = Some c"
    using assms(3) by simp_all
  note rd = sys_read_file [OF f1, of n]
  have io1: "next_io ?s1 = next_io s" by (simp add: next_io_def)
  have c2: "n \<le> length c \<and> \<not> read_full s n \<longrightarrow> (\<exists>s'. ?V = Some (- 1, filesize, s'))"
  proof
    assume a: "n \<le> length c \<and> \<not> read_full s n"
    show "\<exists>s'. ?V = Some (- 1, filesize, s')"
    proof (cases "next_io s")
      case IO_ok
      with a show ?thesis by (simp add: read_full_def)
    next
      case (IO_short m)
      with a have m: "m < n" by (simp add: read_full_def)
      then have "fst (sys_read d n ?s1) \<noteq> int n"
        unfolding rd io1 using IO_short a by (simp add: Let_def min_def)
      then show ?thesis
        using assms(1) a seek
        by (auto simp: chkpt_snapshot_check_file_validity_def assms(5) [symmetric] split: prod.splits)
    next
      case IO_fail
      then have "sys_read d n ?s1 = (- 1, [], pop_io ?s1)"
        unfolding rd io1 by simp
      then show ?thesis
        using assms(1) a seek
        by (simp add: chkpt_snapshot_check_file_validity_def assms(5) [symmetric])
    qed
  qed
  have c3: "n \<le> length c \<and> read_full s n \<longrightarrow>
            ?V = Some (lrec_check_snapshot_done P (drop (length c - n) c), length c,
                      (pop_io s)\<lparr>fdt := (fdt s)(d \<mapsto> f\<lparr>f_off := 0\<rparr>)\<rparr>)"
  proof
    assume a: "n \<le> length c \<and> read_full s n"
    then have k: "(case next_io s of IO_short m \<Rightarrow> min m n | _ \<Rightarrow> n) = n" and nf: "next_io s \<noteq> IO_fail"
      by (auto simp: read_full_def split: io_outcome.splits)
    have tk: "take n (drop (length c - n) c) = drop (length c - n) c" using a by simp
    have ln: "length (drop (length c - n) c) = n" using a by simp
    have r: "sys_read d n ?s1 = (int n, drop (length c - n) c,
                (pop_io ?s1)\<lparr>fdt := (fdt ?s1)(d \<mapsto> ?f1\<lparr>f_off := f_off ?f1 + n\<rparr>)\<rparr>)"
      unfolding rd io1 k using nf a by (simp add: Let_def tk ln)
    have sz: "nat ((int (length c - n) + int n) mod 2 ^ 64) = length c"
    proof -
      have "int (length c - n) + int n = int (length c)" using a by simp
      moreover have "int (length c) mod 2 ^ 64 = int (length c)" using assms(4) by simp
      ultimately show ?thesis by simp
    qed
    show "?V = Some (lrec_check_snapshot_done P (drop (length c - n) c), length c,
                      (pop_io s)\<lparr>fdt := (fdt s)(d \<mapsto> f\<lparr>f_off := 0\<rparr>)\<rparr>)"
      using assms(1) a seek r sz
      by (simp add: chkpt_snapshot_check_file_validity_def assms(5) [symmetric] sys_lseek_set_def pop_io_def)
  qed
  have c4: "read_full s n \<longrightarrow>
            ((\<exists>fsz s'. ?V = Some (0, fsz, s'))
               \<longleftrightarrow> n \<le> length c \<and> lrec_check_snapshot_done P (drop (length c - n) c) = 0)"
  proof (cases "n \<le> length c")
    case True
    show ?thesis
    proof
      assume "read_full s n"
      with True c3 have "?V = Some (lrec_check_snapshot_done P (drop (length c - n) c), length c,
                      (pop_io s)\<lparr>fdt := (fdt s)(d \<mapsto> f\<lparr>f_off := 0\<rparr>)\<rparr>)" by blast
      with True show "(\<exists>fsz s'. ?V = Some (0, fsz, s'))
               \<longleftrightarrow> n \<le> length c \<and> lrec_check_snapshot_done P (drop (length c - n) c) = 0"
        by simp
    qed
  next
    case False
    then have "?V = Some (- 1, filesize, s)" using c1 by simp
    with False show ?thesis by simp
  qed
  show ?thesis by (rule conjI [OF c1 conjI [OF c2 conjI [OF c3 c4]]])
qed

theorem check_file_validity_result_witness:
  "chkpt_snapshot_check_file_validity ex_params 3 0 (ex_sys\<lparr>fs := [''f'' \<mapsto> ''I2abD0'']\<rparr>)
     = Some (0, 6, ex_sys\<lparr>fs := [''f'' \<mapsto> ''I2abD0'']\<rparr>)"
proof -
  let ?s = "ex_sys\<lparr>fs := [''f'' \<mapsto> ''I2abD0'']\<rparr>"
  let ?f = "\<lparr>f_path = ''f'', f_off = 0\<rparr>"
  have a: "fdt ?s 3 = Some ?f" by (simp add: ex_sys_def)
  have b: "fs ?s (f_path ?f) = Some ''I2abD0''" by simp
  have l: "length ''I2abD0'' < 2 ^ 64" by simp
  have n: "2 = sizeof_SnapshotDoneLog ex_params" by (simp add: ex_params_def)
  have p: "(0::int) < 3" by simp
  have rf: "2 \<le> length ''I2abD0'' \<and> read_full ?s 2"
    by (simp add: read_full_def next_io_def ex_sys_def)
  have "chkpt_snapshot_check_file_validity ex_params 3 0 ?s
          = Some (lrec_check_snapshot_done ex_params (drop (length ''I2abD0'' - 2) ''I2abD0''),
                  length ''I2abD0'', (pop_io ?s)\<lparr>fdt := (fdt ?s)(3 \<mapsto> ?f\<lparr>f_off := 0\<rparr>)\<rparr>)"
    using check_file_validity_result [OF p a b l n, of 0] rf by blast
  moreover have "(pop_io ?s)\<lparr>fdt := (fdt ?s)(3 \<mapsto> ?f\<lparr>f_off := 0\<rparr>)\<rparr> = ?s"
    by (simp add: pop_io_def ex_sys_def)
  moreover have "lrec_check_snapshot_done ex_params (drop (length ''I2abD0'' - 2) ''I2abD0'') = 0"
    by (simp add: ex_params_def)
  ultimately show ?thesis by simp
qed

section \<open>Replaying: reading and dispatching records\<close>

lemma remaining_same: "fs s' = fs s \<Longrightarrow> fdt s' = fdt s \<Longrightarrow> remaining s' d = remaining s d"
  by (simp add: remaining_def cong: option.case_cong)

lemma sys_read_full_remaining:
  assumes "sys_read d n s = (int n, bs, s')" and "0 < n"
  shows "remaining s' d < remaining s d"
proof (cases "fdt s d")
  case None
  with assms show ?thesis by (simp add: sys_read_def)
next
  case (Some f)
  show ?thesis
  proof (cases "fs s (f_path f)")
    case None
    with Some assms show ?thesis by (simp add: sys_read_def)
  next
    case c: (Some c)
    note rd = sys_read_file [OF Some c, of n]
    show ?thesis
    proof (cases "next_io s = IO_fail")
      case True
      with assms rd show ?thesis by simp
    next
      case False
      define k where "k = (case next_io s of IO_short m \<Rightarrow> min m n | _ \<Rightarrow> n)"
      have "sys_read d n s = (int (length (take k (drop (f_off f) c))), take k (drop (f_off f) c),
             (pop_io s)\<lparr>fdt := (fdt s)(d \<mapsto> f\<lparr>f_off := f_off f + length (take k (drop (f_off f) c))\<rparr>)\<rparr>)"
        unfolding rd k_def using False by (simp add: Let_def)
      then have "(int (length (take k (drop (f_off f) c))), take k (drop (f_off f) c),
             (pop_io s)\<lparr>fdt := (fdt s)(d \<mapsto> f\<lparr>f_off := f_off f + length (take k (drop (f_off f) c))\<rparr>)\<rparr>)
            = (int n, bs, s')"
        unfolding assms(1) by (rule sym)
      then have l: "length (take k (drop (f_off f) c)) = n"
        and s': "s' = (pop_io s)\<lparr>fdt := (fdt s)(d \<mapsto> f\<lparr>f_off := f_off f + length (take k (drop (f_off f) c))\<rparr>)\<rparr>"
        by auto
      from l assms(2) have "f_off f + n \<le> length c" by (simp add: min_def split: if_splits)
      with assms(2) Some c l show ?thesis
        by (simp add: s' remaining_def pop_io_def)
    qed
  qed
qed

lemma sys_read_keeps:
  "sys_read d n s = (k, bs, s') \<Longrightarrow> logged s' = logged s \<and> fs s' = fs s \<and> trace s' = trace s"
  by (auto simp: sys_read_def pop_io_def Let_def split: option.splits if_splits)

lemma sys_read_fdt:
  "sys_read d n s = (k, bs, s') \<Longrightarrow> (fdt s' d = None) = (fdt s d = None) \<and> (\<forall>d'. d' \<noteq> d \<longrightarrow> fdt s' d' = fdt s d')"
  by (auto simp: sys_read_def pop_io_def Let_def split: option.splits if_splits)

lemma sys_read_remaining_le:
  assumes "sys_read d n s = (k, bs, s')"
  shows "remaining s' d \<le> remaining s d"
proof (cases "fdt s d")
  case None
  with assms show ?thesis by (simp add: sys_read_def)
next
  case (Some f)
  show ?thesis
  proof (cases "fs s (f_path f)")
    case None
    with Some assms show ?thesis by (simp add: sys_read_def)
  next
    case c: (Some c)
    note rd = sys_read_file [OF Some c, of n]
    show ?thesis
    proof (cases "next_io s = IO_fail")
      case True
      with assms rd have "s' = pop_io s" by simp
      then have "remaining s' d = remaining s d" by (intro remaining_same) (simp_all add: pop_io_def)
      then show ?thesis by simp
    next
      case False
      with assms rd Some c show ?thesis
        by (auto simp: Let_def remaining_def pop_io_def)
    qed
  qed
qed

lemma same_files_refl [simp]: "same_files s s d"
  by (simp add: same_files_def)

lemma same_files_trans: "same_files s s1 d \<Longrightarrow> same_files s1 s2 d \<Longrightarrow> same_files s s2 d"
  by (auto simp: same_files_def)

lemma same_files_read: "sys_read d n s = (k, bs, s') \<Longrightarrow> same_files s s' d"
  using sys_read_keeps [of d n s k bs s'] sys_read_fdt [of d n s k bs s'] sys_read_remaining_le [of d n s k bs s']
  by (simp add: same_files_def)

lemma same_files_log [simp]: "same_files s (logger_log l m s') d = same_files s s' d"
  using remaining_same [of "logger_log l m s'" s' d]
  by (simp add: same_files_def logger_log_def)

lemma r_log_fields [simp]:
  "r_engine (r_log l m st) = r_engine st" "last_coll_it (r_log l m st) = last_coll_it st"
  "r_calls (r_log l m st) = r_calls st" "r_body (r_log l m st) = r_body st"
  "r_sys (r_log l m st) = logger_log l m (r_sys st)"
  by (simp_all add: r_log_def)

lemma logged_logger_log [simp]: "logged (logger_log l m s) = logged s @ [(l, m)]"
  by (simp add: logger_log_def)

lemma read_record_Inr:
  assumes "read_record P d st = Inr (hdr, st1)"
  shows "r_engine st1 = r_engine st \<and> last_coll_it st1 = last_coll_it st \<and> r_calls st1 = r_calls st
         \<and> logged (r_sys st1) = logged (r_sys st) \<and> same_files (r_sys st) (r_sys st1) d
         \<and> (0 < sizeof_LogHdr P \<longrightarrow> remaining (r_sys st1) d < remaining (r_sys st) d)"
proof -
  obtain k h s1 where r1: "sys_read d (sizeof_LogHdr P) (r_sys st) = (k, h, s1)"
    by (cases "sys_read d (sizeof_LogHdr P) (r_sys st)")
  from assms r1 have k: "k = int (sizeof_LogHdr P)" and h: "h = hdr"
    by (auto simp: read_record_def Let_def split: if_splits prod.splits)
  note f1 = same_files_read [OF r1] and l1 = sys_read_keeps [OF r1]
  have p1: "0 < sizeof_LogHdr P \<longrightarrow> remaining s1 d < remaining (r_sys st) d"
    using sys_read_full_remaining [of d "sizeof_LogHdr P" "r_sys st" h s1] r1 k by simp
  let ?n = "body_length_of P hdr mod 2 ^ 32"
  show ?thesis
  proof (cases "?n > 0")
    case True
    obtain k' b s2 where r2: "sys_read d ?n s1 = (k', b, s2)" by (cases "sys_read d ?n s1")
    from assms r1 k h True r2 have st1: "st1 = st\<lparr>r_sys := s2, r_body := b @ drop (length b) (r_body st)\<rparr>"
      by (auto simp: read_record_def Let_def split: if_splits)
    note f2 = same_files_read [OF r2] and l2 = sys_read_keeps [OF r2]
    have "remaining s2 d \<le> remaining s1 d" using f2 by (simp add: same_files_def)
    with p1 have "0 < sizeof_LogHdr P \<longrightarrow> remaining s2 d < remaining (r_sys st) d" by auto
    with same_files_trans [OF f1 f2] l1 l2 show ?thesis by (simp add: st1)
  next
    case False
    with assms r1 k h have "st1 = st\<lparr>r_sys := s1\<rparr>"
      by (auto simp: read_record_def Let_def split: if_splits)
    with f1 l1 p1 show ?thesis by simp
  qed
qed


lemma only_logged_refl [simp]: "only_logged s s"
  by (simp add: only_logged_def)

lemma logger_log_fields [simp]:
  "fs (logger_log l m s) = fs s" "fdt (logger_log l m s) = fdt s"
  "io (logger_log l m s) = io s" "trace (logger_log l m s) = trace s"
  by (simp_all add: logger_log_def)

lemma only_logged_log [simp]: "only_logged s s' \<Longrightarrow> only_logged s (logger_log l m s')"
  by (auto simp: only_logged_def logger_log_def)

lemma only_logged_log_self [simp]: "only_logged s (logger_log l m s)"
  by (auto simp: only_logged_def logger_log_def)


lemma release_last_fields [simp]:
  "r_sys (release_last E st) = r_sys st" "r_body (release_last E st) = r_body st"
  "last_coll_it (release_last E st) = last_coll_it st"
  "r_calls (release_last E st) = r_calls st @ (case last_coll_it st of None \<Rightarrow> [] | Some it \<Rightarrow> [Call_release it])"
  by (simp_all add: release_last_def split: option.splits)


lemma dispatch_skip:
  assumes "logtype_of P hdr \<noteq> LOG_IT_LINK" and "logtype_of P hdr \<noteq> LOG_SNAPSHOT_DONE"
    and "logtype_of P hdr = LOG_SNAPSHOT_ELEM \<longrightarrow> last_coll_it st = None"
  shows "dispatch P E hdr st = Continue st"
  using assms by (auto simp: dispatch_def Let_def)















lemma pop_io_empty: "io s = [] \<Longrightarrow> pop_io s = s"
  by (simp add: pop_io_def)

lemma next_io_empty: "io s = [] \<Longrightarrow> next_io s = IO_ok"
  by (simp add: next_io_def)

lemma sys_read_stream:
  assumes "io s = []" and "fdt s d = Some f" and "fs s (f_path f) = Some c"
    and "drop (f_off f) c = bs @ rest"
  shows "sys_read d (length bs) s
           = (int (length bs), bs, s\<lparr>fdt := (fdt s)(d \<mapsto> f\<lparr>f_off := f_off f + length bs\<rparr>)\<rparr>)"
proof -
  have "take (length bs) (drop (f_off f) c) = bs" by (simp add: assms(4))
  moreover have "length (drop (f_off f) c) = length bs + length rest" by (simp add: assms(4))
  then have "min (length c - f_off f) (length bs) = length bs" by simp
  ultimately show ?thesis
    unfolding sys_read_file [OF assms(2,3)] next_io_empty [OF assms(1)] pop_io_empty [OF assms(1)]
    by (simp add: Let_def)
qed

lemma read_record_stream:
  assumes io: "io (r_sys st) = []" and fd: "fdt (r_sys st) d = Some f"
    and fl: "fs (r_sys st) (f_path f) = Some c"
    and dr: "drop (f_off f) c = h @ b @ rest"
    and wf: "wf_record P (h, b)"
  shows "read_record P d st
           = Inr (h, st\<lparr>r_sys := (r_sys st)\<lparr>fdt := (fdt (r_sys st))(d \<mapsto> f\<lparr>f_off := f_off f + length h + length b\<rparr>)\<rparr>,
                         r_body := b @ drop (length b) (r_body st)\<rparr>)"
proof -
  let ?n = "sizeof_LogHdr P"
  let ?f1 = "f\<lparr>f_off := f_off f + length h\<rparr>"
  let ?s1 = "(r_sys st)\<lparr>fdt := (fdt (r_sys st))(d \<mapsto> ?f1)\<rparr>"
  from wf have lh: "length h = ?n" and lb: "body_length_of P h mod 2 ^ 32 = length b"
    and mx: "length b \<le> u32 (int (MAX_LOG_RECORD_SIZE P) - int ?n)"
    by (simp_all add: wf_record_def)
  have r1: "sys_read d ?n (r_sys st) = (int ?n, h, ?s1)"
    using sys_read_stream [OF io fd fl, of h "b @ rest"] dr by (simp add: lh)
  show ?thesis
  proof (cases "b = []")
    case True
    then have z: "body_length_of P h mod 2 ^ 32 = 0" using lb by simp
    show ?thesis
      apply (simp only: read_record_def r1 prod.case Let_def z)
      using True by simp
  next
    case False
    have io1: "io ?s1 = []" using io by simp
    have fd1: "fdt ?s1 d = Some ?f1" by simp
    have fl1: "fs ?s1 (f_path ?f1) = Some c" using fl by simp
    have dr1: "drop (f_off ?f1) c = b @ rest"
    proof -
      have "drop (f_off f + length h) c = drop (length h) (drop (f_off f) c)" by (simp add: add.commute)
      then show ?thesis by (simp add: dr)
    qed
    have r2: "sys_read d (length b) ?s1
                = (int (length b), b, ?s1\<lparr>fdt := (fdt ?s1)(d \<mapsto> ?f1\<lparr>f_off := f_off ?f1 + length b\<rparr>)\<rparr>)"
      by (rule sys_read_stream [OF io1 fd1 fl1 dr1])
    have nm: "\<not> u32 (int (MAX_LOG_RECORD_SIZE P) - int ?n) < length b" using mx by simp
    show ?thesis
      apply (simp only: read_record_def r1 prod.case Let_def lb)
      using False r2 nm by simp
  qed
qed

lemma read_record_at_stream:
  assumes "at_stream (r_sys st) d (h @ b @ rest)" and wf: "wf_record P (h, b)"
  shows "\<exists>st1. read_record P d st = Inr (h, st1) \<and> at_stream (r_sys st1) d rest
           \<and> r_body st1 = b @ drop (length b) (r_body st)
           \<and> r_engine st1 = r_engine st \<and> last_coll_it st1 = last_coll_it st
           \<and> r_calls st1 = r_calls st \<and> logged (r_sys st1) = logged (r_sys st)"
proof -
  from assms(1) obtain f c where io: "io (r_sys st) = []" and fd: "fdt (r_sys st) d = Some f"
    and fl: "fs (r_sys st) (f_path f) = Some c" and dr: "drop (f_off f) c = h @ b @ rest"
    by (auto simp: at_stream_def split: option.splits)
  note rr = read_record_stream [OF io fd fl dr wf]
  have "drop (f_off f + length h + length b) c = drop (length h + length b) (drop (f_off f) c)"
    by (simp add: add.commute add.left_commute)
  then have "drop (f_off f + length h + length b) c = rest" by (simp add: dr)
  then show ?thesis unfolding rr using io fl by (simp add: at_stream_def)
qed


lemma read_record_at_stream_fill:
  assumes "at_stream (r_sys st) d (record_bytes r @ rest)" and "wf_record P r"
  shows "\<exists>st1. read_record P d st = Inr (fst r, st1) \<and> at_stream (r_sys st1) d rest
           \<and> r_body st1 = fill (r_body st) (snd r)
           \<and> r_engine st1 = r_engine st \<and> last_coll_it st1 = last_coll_it st
           \<and> r_calls st1 = r_calls st \<and> logged (r_sys st1) = logged (r_sys st)"
  using read_record_at_stream [of st d "fst r" "snd r" rest P] assms
  by (simp add: record_bytes_def fill_def)

lemma replay_loop_Continue:
  "eng_initialized E (r_engine st) \<Longrightarrow> replay_round P E d st = Continue st1
     \<Longrightarrow> replay_loop P E d st = replay_loop P E d st1"
  by (subst replay_loop.simps) simp

lemma replay_loop_Break:
  "eng_initialized E (r_engine st) \<Longrightarrow> replay_round P E d st = Break r st1
     \<Longrightarrow> replay_loop P E d st = Some (r, st1)"
  by (subst replay_loop.simps) simp

lemma replay_loop_skips:
  assumes "at_stream (r_sys st) d (concat (map record_bytes rs) @ rest)"
    and "\<forall>r\<in>set rs. wf_record P r \<and> logtype_of P (fst r) \<noteq> LOG_IT_LINK
            \<and> logtype_of P (fst r) \<noteq> LOG_SNAPSHOT_DONE
            \<and> (logtype_of P (fst r) = LOG_SNAPSHOT_ELEM \<longrightarrow> last_coll_it st = None)"
    and "eng_initialized E (r_engine st)"
  shows "\<exists>st1. replay_loop P E d st = replay_loop P E d st1 \<and> at_stream (r_sys st1) d rest
           \<and> r_body st1 = foldl fill (r_body st) (map snd rs)
           \<and> r_engine st1 = r_engine st \<and> last_coll_it st1 = last_coll_it st
           \<and> r_calls st1 = r_calls st \<and> logged (r_sys st1) = logged (r_sys st)"
  using assms
proof (induction rs arbitrary: st)
  case Nil
  then show ?case by auto
next
  case (Cons r rs)
  from Cons.prems(1) have a: "at_stream (r_sys st) d (record_bytes r @ (concat (map record_bytes rs) @ rest))"
    by simp
  from Cons.prems(2) have wf: "wf_record P r" by simp
  from read_record_at_stream_fill [OF a wf]
  obtain st1 where rd: "read_record P d st = Inr (fst r, st1)"
    and s1: "at_stream (r_sys st1) d (concat (map record_bytes rs) @ rest)"
    and b1: "r_body st1 = fill (r_body st) (snd r)"
    and k1: "r_engine st1 = r_engine st" "last_coll_it st1 = last_coll_it st"
       "r_calls st1 = r_calls st" "logged (r_sys st1) = logged (r_sys st)" by blast
  from Cons.prems(2) k1 have "logtype_of P (fst r) \<noteq> LOG_IT_LINK" "logtype_of P (fst r) \<noteq> LOG_SNAPSHOT_DONE"
    "logtype_of P (fst r) = LOG_SNAPSHOT_ELEM \<longrightarrow> last_coll_it st1 = None" by auto
  from dispatch_skip [OF this, where E = E] rd
  have c: "replay_round P E d st = Continue st1" by (simp add: replay_round_def)
  have l: "replay_loop P E d st = replay_loop P E d st1"
    using replay_loop_Continue [OF Cons.prems(3) c] .
  have p2: "\<forall>r\<in>set rs. wf_record P r \<and> logtype_of P (fst r) \<noteq> LOG_IT_LINK
            \<and> logtype_of P (fst r) \<noteq> LOG_SNAPSHOT_DONE
            \<and> (logtype_of P (fst r) = LOG_SNAPSHOT_ELEM \<longrightarrow> last_coll_it st1 = None)"
    using Cons.prems(2) k1 by simp
  have p3: "eng_initialized E (r_engine st1)" using Cons.prems(3) k1 by simp
  from Cons.IH [OF s1 p2 p3]
  obtain st2 where "replay_loop P E d st1 = replay_loop P E d st2" "at_stream (r_sys st2) d rest"
    "r_body st2 = foldl fill (r_body st1) (map snd rs)"
    "r_engine st2 = r_engine st1" "last_coll_it st2 = last_coll_it st1"
    "r_calls st2 = r_calls st1" "logged (r_sys st2) = logged (r_sys st1)" by blast
  with l b1 k1 show ?case by (intro exI [of _ st2]) simp
qed





lemma dispatch_done_go:
  assumes "logtype_of P hdr = LOG_SNAPSHOT_DONE"
  shows "\<exists>st1. dispatch P E hdr st = Break 0 st1
           \<and> r_engine st1 = (case last_coll_it st of None \<Rightarrow> r_engine st
                               | Some p \<Rightarrow> item_release E p (r_engine st))
           \<and> last_coll_it st1 = last_coll_it st
           \<and> r_calls st1 = r_calls st @ (case last_coll_it st of None \<Rightarrow> [] | Some p \<Rightarrow> [Call_release p])
           \<and> only_logged (r_sys st) (r_sys st1)
           \<and> logged (r_sys st1) = logged (r_sys st)
                 @ [(EXTENSION_LOG_INFO, ''[RECOVERY - SNAPSHOT] success.'')]"
  using assms
  by (cases "last_coll_it st") (auto simp: dispatch_def release_last_def Let_def only_logged_def)




lemma replay_loop_done:
  assumes "at_stream (r_sys st) d (record_bytes r @ rest)" and "wf_record P r"
    and "logtype_of P (fst r) = LOG_SNAPSHOT_DONE"
    and "eng_initialized E (r_engine st)"
  shows "\<exists>st1. replay_loop P E d st = Some (0, st1)
           \<and> r_engine st1 = (case last_coll_it st of None \<Rightarrow> r_engine st
                               | Some p \<Rightarrow> item_release E p (r_engine st))
           \<and> last_coll_it st1 = last_coll_it st
           \<and> r_calls st1 = r_calls st @ (case last_coll_it st of None \<Rightarrow> [] | Some p \<Rightarrow> [Call_release p])
           \<and> logged (r_sys st1) = logged (r_sys st)
                 @ [(EXTENSION_LOG_INFO, ''[RECOVERY - SNAPSHOT] success.'')]"
proof -
  from read_record_at_stream_fill [OF assms(1,2)]
  obtain st0 where rd: "read_record P d st = Inr (fst r, st0)"
    and k0: "r_engine st0 = r_engine st" "last_coll_it st0 = last_coll_it st"
       "r_calls st0 = r_calls st" "logged (r_sys st0) = logged (r_sys st)" by blast
  have rr: "replay_round P E d st = dispatch P E (fst r) st0" using rd by (simp add: replay_round_def)
  from dispatch_done_go [OF assms(3), of E st0]
  obtain st1 where "dispatch P E (fst r) st0 = Break 0 st1"
    "r_engine st1 = (case last_coll_it st0 of None \<Rightarrow> r_engine st0
                               | Some p \<Rightarrow> item_release E p (r_engine st0))"
    "last_coll_it st1 = last_coll_it st0"
    "r_calls st1 = r_calls st0 @ (case last_coll_it st0 of None \<Rightarrow> [] | Some p \<Rightarrow> [Call_release p])"
    "logged (r_sys st1) = logged (r_sys st0) @ [(EXTENSION_LOG_INFO, ''[RECOVERY - SNAPSHOT] success.'')]"
    by blast
  with replay_loop_Break [OF assms(4), of P d 0 st1] rr k0 show ?thesis
    by (simp cong: option.case_cong)
qed




lemma file_apply_opened:
  assumes "io s = []" and "fs s filepath = Some c"
  shows "\<exists>st0. chkpt_snapshot_file_apply P E buf0 filepath e s
                 = (case replay_loop P E (int (next_fd s)) st0 of
                      None \<Rightarrow> None
                    | Some (ret, st) \<Rightarrow> Some (ret, st\<lparr>r_sys := sys_close (int (next_fd s)) (r_sys st)\<rparr>))
           \<and> at_stream (r_sys st0) (int (next_fd s)) c
           \<and> r_engine st0 = e \<and> r_body st0 = buf0 \<and> last_coll_it st0 = None \<and> r_calls st0 = []
           \<and> logged (r_sys st0) = logged s
                 @ [(EXTENSION_LOG_INFO, ''[RECOVERY - SNAPSHOT] applying snapshot file.'')]"
proof -
  let ?s0 = "logger_log EXTENSION_LOG_INFO ''[RECOVERY - SNAPSHOT] applying snapshot file.'' s"
  let ?d = "int (next_fd s)"
  let ?s1 = "(pop_io ?s0)\<lparr>fdt := (fdt ?s0)(?d \<mapsto> \<lparr>f_path = filepath, f_off = 0\<rparr>),
                     next_fd := next_fd ?s0 + 1\<rparr>"
  let ?st = "\<lparr>r_engine = e, r_sys = ?s1, r_body = buf0, last_coll_it = None, r_calls = []\<rparr>"
  have io0: "next_io ?s0 = IO_ok" using assms(1) by (simp add: next_io_def)
  have nf: "next_fd ?s0 = next_fd s" by (simp add: logger_log_def)
  have op: "sys_open_rdonly filepath ?s0 = (?d, ?s1)"
    using assms(2) io0 by (simp add: sys_open_rdonly_def nf)
  have a: "chkpt_snapshot_file_apply P E buf0 filepath e s
                 = (case replay_loop P E ?d ?st of
                      None \<Rightarrow> None
                    | Some (ret, st) \<Rightarrow> Some (ret, st\<lparr>r_sys := sys_close ?d (r_sys st)\<rparr>))"
    using op by (simp add: chkpt_snapshot_file_apply_def)
  have b: "at_stream (r_sys ?st) ?d c"
    using assms by (simp add: at_stream_def pop_io_def)
  have g: "logged (r_sys ?st) = logged s
                 @ [(EXTENSION_LOG_INFO, ''[RECOVERY - SNAPSHOT] applying snapshot file.'')]"
    by (simp add: pop_io_def)
  from a b g show ?thesis by (intro exI [of _ ?st]) simp
qed

lemma ex_read_record:
  assumes "drop off c = h @ b @ rest" and "wf_record ex_params (h, b)"
  shows "read_record ex_params 3 (ex_replay c off buf it)
           = Inr (h, ex_replay c (off + length h + length b) (b @ drop (length b) buf) it)"
proof -
  let ?st = "ex_replay c off buf it"
  let ?f = "\<lparr>f_path = ''f'', f_off = off\<rparr>"
  have io: "io (r_sys ?st) = []" by (simp add: ex_replay_def ex_sys_def)
  have fd: "fdt (r_sys ?st) 3 = Some ?f" by (simp add: ex_replay_def)
  have fl: "fs (r_sys ?st) (f_path ?f) = Some c" by (simp add: ex_replay_def)
  have dr: "drop (f_off ?f) c = h @ b @ rest" using assms(1) by simp
  show ?thesis
    unfolding read_record_stream [OF io fd fl dr assms(2)]
    by (simp add: ex_replay_def)
qed

lemma ex_wf:
  "wf_record ex_params (''X0'', [])" "wf_record ex_params (''E1'', [x])"
  "wf_record ex_params (''I2'', [x, y])" "wf_record ex_params (''D0'', [])"
  "wf_record ex_params (''I0'', [])" "wf_record ex_params (''E0'', [])"
  by (simp_all add: wf_record_def ex_params_def ex_body_length_def u32_def)

lemma ex_logtypes:
  "logtype_of ex_params ''X0'' = LOG_OTHER 0" "logtype_of ex_params ''E1'' = LOG_SNAPSHOT_ELEM"
  "logtype_of ex_params ''I2'' = LOG_IT_LINK" "logtype_of ex_params ''D0'' = LOG_SNAPSHOT_DONE"
  "logtype_of ex_params ''I0'' = LOG_IT_LINK" "logtype_of ex_params ''E0'' = LOG_SNAPSHOT_ELEM"
  by (simp_all add: ex_params_def ex_logtype_def)

lemma file_apply_result:
  assumes "chkpt_snapshot_file_apply P E buf0 filepath e s
             = (case replay_loop P E d st0 of
                  None \<Rightarrow> None
                | Some (ret, st) \<Rightarrow> Some (ret, st\<lparr>r_sys := sys_close d (r_sys st)\<rparr>))"
    and "replay_loop P E d st0 = Some (ret, st1)"
  shows "\<exists>st'. chkpt_snapshot_file_apply P E buf0 filepath e s = Some (ret, st')
           \<and> r_engine st' = r_engine st1 \<and> last_coll_it st' = last_coll_it st1
           \<and> r_calls st' = r_calls st1 \<and> logged (r_sys st') = logged (r_sys st1)"
  unfolding assms(1) assms(2) by (simp add: sys_close_def)

text \<open>
  Claim C10. A file that holds, before its SnapshotDone record, only well-formed records
  that are neither ItemLink nor SnapshotDone records (records of an unknown kind, and
  CollectionElement records, which here arrive while no collection item is retained):
  \<open>chkpt_snapshot_file_apply\<close> returns 0, has made no call into the engine, has logged
  nothing but its first line and the line of success, and holds no item. And in any round
  of the loop, when the record is read completely (\<open>read_record\<close> succeeds) and its kind is
  none of the three, or it is a CollectionElement record while \<open>last_coll_it\<close> is null, the
  round goes on to the next one with the state as it was after the read: no call, nothing
  logged, \<open>last_coll_it\<close> and the engine unchanged.
\<close>

theorem unknown_records_skipped:
  "(io s = [] \<and> fs s filepath = Some (concat (map record_bytes rs) @ record_bytes fin @ rest)
      \<and> (\<forall>r\<in>set rs. wf_record P r \<and> logtype_of P (fst r) \<noteq> LOG_IT_LINK
                       \<and> logtype_of P (fst r) \<noteq> LOG_SNAPSHOT_DONE)
      \<and> wf_record P fin \<and> logtype_of P (fst fin) = LOG_SNAPSHOT_DONE \<and> eng_initialized E e
    \<longrightarrow> (\<exists>st'. chkpt_snapshot_file_apply P E buf0 filepath e s = Some (0, st')
            \<and> r_calls st' = [] \<and> r_engine st' = e \<and> last_coll_it st' = None
            \<and> logged (r_sys st') = logged s
                 @ [(EXTENSION_LOG_INFO, ''[RECOVERY - SNAPSHOT] applying snapshot file.''),
                    (EXTENSION_LOG_INFO, ''[RECOVERY - SNAPSHOT] success.'')]))
   \<and> (read_record P d st = Inr (hdr, st1)
      \<and> ((logtype_of P hdr \<noteq> LOG_IT_LINK \<and> logtype_of P hdr \<noteq> LOG_SNAPSHOT_ELEM
             \<and> logtype_of P hdr \<noteq> LOG_SNAPSHOT_DONE)
          \<or> (logtype_of P hdr = LOG_SNAPSHOT_ELEM \<and> last_coll_it st = None))
    \<longrightarrow> replay_round P E d st = Continue st1
        \<and> r_calls st1 = r_calls st \<and> logged (r_sys st1) = logged (r_sys st)
        \<and> last_coll_it st1 = last_coll_it st \<and> r_engine st1 = r_engine st
        \<and> (eng_initialized E (r_engine st) \<longrightarrow> replay_loop P E d st = replay_loop P E d st1))"
proof -
  have whole: "\<exists>st'. chkpt_snapshot_file_apply P E buf0 filepath e s = Some (0, st')
            \<and> r_calls st' = [] \<and> r_engine st' = e \<and> last_coll_it st' = None
            \<and> logged (r_sys st') = logged s
                 @ [(EXTENSION_LOG_INFO, ''[RECOVERY - SNAPSHOT] applying snapshot file.''),
                    (EXTENSION_LOG_INFO, ''[RECOVERY - SNAPSHOT] success.'')]"
    if io: "io s = []"
      and fl: "fs s filepath = Some (concat (map record_bytes rs) @ record_bytes fin @ rest)"
      and sk: "\<forall>r\<in>set rs. wf_record P r \<and> logtype_of P (fst r) \<noteq> LOG_IT_LINK
                       \<and> logtype_of P (fst r) \<noteq> LOG_SNAPSHOT_DONE"
      and fin: "wf_record P fin" "logtype_of P (fst fin) = LOG_SNAPSHOT_DONE"
      and init: "eng_initialized E e"
  proof -
    let ?d = "int (next_fd s)"
    from file_apply_opened [OF io fl, of P E buf0 e]
    obtain st0 where ap: "chkpt_snapshot_file_apply P E buf0 filepath e s
                 = (case replay_loop P E ?d st0 of
                      None \<Rightarrow> None
                    | Some (ret, st) \<Rightarrow> Some (ret, st\<lparr>r_sys := sys_close ?d (r_sys st)\<rparr>))"
      and s0: "at_stream (r_sys st0) ?d (concat (map record_bytes rs) @ record_bytes fin @ rest)"
      and k0: "r_engine st0 = e" "last_coll_it st0 = None" "r_calls st0 = []"
      and g0: "logged (r_sys st0) = logged s
                 @ [(EXTENSION_LOG_INFO, ''[RECOVERY - SNAPSHOT] applying snapshot file.'')]"
      by blast
    have sk0: "\<forall>r\<in>set rs. wf_record P r \<and> logtype_of P (fst r) \<noteq> LOG_IT_LINK
            \<and> logtype_of P (fst r) \<noteq> LOG_SNAPSHOT_DONE
            \<and> (logtype_of P (fst r) = LOG_SNAPSHOT_ELEM \<longrightarrow> last_coll_it st0 = None)"
      using sk k0 by simp
    have i0: "eng_initialized E (r_engine st0)" using init k0 by simp
    from replay_loop_skips [OF s0 sk0 i0]
    obtain st1 where l1: "replay_loop P E ?d st0 = replay_loop P E ?d st1"
      and s1: "at_stream (r_sys st1) ?d (record_bytes fin @ rest)"
      and k1: "r_engine st1 = r_engine st0" "last_coll_it st1 = last_coll_it st0"
        "r_calls st1 = r_calls st0" "logged (r_sys st1) = logged (r_sys st0)" by blast
    have i1: "eng_initialized E (r_engine st1)" using i0 k1 by simp
    from replay_loop_done [OF s1 fin i1]
    obtain st2 where l2: "replay_loop P E ?d st1 = Some (0, st2)"
      and k2: "last_coll_it st2 = last_coll_it st1"
        "r_calls st2 = r_calls st1 @ (case last_coll_it st1 of None \<Rightarrow> [] | Some p \<Rightarrow> [Call_release p])"
        "logged (r_sys st2) = logged (r_sys st1)
                 @ [(EXTENSION_LOG_INFO, ''[RECOVERY - SNAPSHOT] success.'')]"
      and e2: "r_engine st2 = (case last_coll_it st1 of None \<Rightarrow> r_engine st1
                               | Some p \<Rightarrow> item_release E p (r_engine st1))" by blast
    have run: "replay_loop P E ?d st0 = Some (0, st2)" using l1 l2 by simp
    have en: "r_engine st2 = e" using e2 k1 k0 by simp
    from file_apply_result [OF ap run] k0 k1 k2 g0 en show ?thesis by auto
  qed
  have round: "replay_round P E d st = Continue st1
        \<and> r_calls st1 = r_calls st \<and> logged (r_sys st1) = logged (r_sys st)
        \<and> last_coll_it st1 = last_coll_it st \<and> r_engine st1 = r_engine st
        \<and> (eng_initialized E (r_engine st) \<longrightarrow> replay_loop P E d st = replay_loop P E d st1)"
    if rd: "read_record P d st = Inr (hdr, st1)"
      and kind: "(logtype_of P hdr \<noteq> LOG_IT_LINK \<and> logtype_of P hdr \<noteq> LOG_SNAPSHOT_ELEM
                  \<and> logtype_of P hdr \<noteq> LOG_SNAPSHOT_DONE)
               \<or> (logtype_of P hdr = LOG_SNAPSHOT_ELEM \<and> last_coll_it st = None)"
  proof -
    note rr = read_record_Inr [OF rd]
    from kind rr have "logtype_of P hdr \<noteq> LOG_IT_LINK" "logtype_of P hdr \<noteq> LOG_SNAPSHOT_DONE"
      "logtype_of P hdr = LOG_SNAPSHOT_ELEM \<longrightarrow> last_coll_it st1 = None" by auto
    from dispatch_skip [OF this, where E = E] rd
    have c: "replay_round P E d st = Continue st1" by (simp add: replay_round_def)
    have l: "eng_initialized E (r_engine st) \<longrightarrow> replay_loop P E d st = replay_loop P E d st1"
      using c by (subst replay_loop.simps) simp
    from c l rr show ?thesis by simp
  qed
  from whole round show ?thesis by blast
qed

theorem unknown_records_skipped_witness:
  "map_option (\<lambda>x. (fst x, r_calls (snd x), logged (r_sys (snd x))))
     (chkpt_snapshot_file_apply ex_params (ex_engine ENGINE_FAILED) ''____'' ''f'' 0
        (ex_sys\<lparr>fs := [''f'' \<mapsto> ''X0E1aD0'']\<rparr>))
     = Some (0, [], [(EXTENSION_LOG_INFO, ''[RECOVERY - SNAPSHOT] applying snapshot file.''),
                     (EXTENSION_LOG_INFO, ''[RECOVERY - SNAPSHOT] success.'')])
   \<and> replay_round ex_params (ex_engine ENGINE_FAILED) 3 (ex_replay ''X0E1aD0'' 2 ''____'' None)
     = Continue (ex_replay ''X0E1aD0'' 5 ''a___'' None)"
proof -
  let ?s = "ex_sys\<lparr>fs := [''f'' \<mapsto> ''X0E1aD0'']\<rparr>"
  let ?E = "ex_engine ENGINE_FAILED"
  have rd: "read_record ex_params 3 (ex_replay ''X0E1aD0'' 2 ''____'' None)
             = Inr (''E1'', ex_replay ''X0E1aD0'' 5 ''a___'' None)"
    using ex_read_record [where c = "''X0E1aD0''" and off = 2 and h = "''E1''" and b = "''a''"
            and rest = "''D0''", OF _ ex_wf(2)] by (simp add: eval_nat_numeral)
  have k: "last_coll_it (ex_replay ''X0E1aD0'' 2 ''____'' None) = None"
    by (simp add: ex_replay_def)
  have io: "io ?s = []" by (simp add: ex_sys_def)
  have fl: "fs ?s ''f'' = Some (concat (map record_bytes [(''X0'', []), (''E1'', ''a'')])
                                  @ record_bytes (''D0'', []) @ [])"
    by (simp add: record_bytes_def)
  have sk: "\<forall>r\<in>set [(''X0'', []), (''E1'', ''a'')]. wf_record ex_params r
              \<and> logtype_of ex_params (fst r) \<noteq> LOG_IT_LINK
              \<and> logtype_of ex_params (fst r) \<noteq> LOG_SNAPSHOT_DONE"
    by (simp add: ex_wf ex_logtypes)
  have fin: "wf_record ex_params (''D0'', []) \<and> logtype_of ex_params (fst (''D0'', [])) = LOG_SNAPSHOT_DONE"
    by (simp add: ex_wf ex_logtypes)
  have init: "eng_initialized ?E 0" by (simp add: ex_engine_def)
  note t = unknown_records_skipped [where s = ?s and filepath = "''f''"
      and rs = "[(''X0'', []), (''E1'', ''a'')]" and fin = "(''D0'', [])" and rest = "[]"
      and P = ex_params and E = ?E and e = 0 and ?buf0.0 = "''____''" and d = 3
      and st = "ex_replay ''X0E1aD0'' 2 ''____'' None" and hdr = "''E1''"
      and ?st1.0 = "ex_replay ''X0E1aD0'' 5 ''a___'' None"]
  from t io fl sk fin init
  obtain st' where "chkpt_snapshot_file_apply ex_params ?E ''____'' ''f'' 0 ?s = Some (0, st')"
    "r_calls st' = []"
    "logged (r_sys st') = logged ?s
                 @ [(EXTENSION_LOG_INFO, ''[RECOVERY - SNAPSHOT] applying snapshot file.''),
                    (EXTENSION_LOG_INFO, ''[RECOVERY - SNAPSHOT] success.'')]"
    by blast
  then have a: "map_option (\<lambda>x. (fst x, r_calls (snd x), logged (r_sys (snd x))))
     (chkpt_snapshot_file_apply ex_params ?E ''____'' ''f'' 0 ?s)
     = Some (0, [], [(EXTENSION_LOG_INFO, ''[RECOVERY - SNAPSHOT] applying snapshot file.''),
                     (EXTENSION_LOG_INFO, ''[RECOVERY - SNAPSHOT] success.'')])"
    by (simp add: ex_sys_def)
  from t rd k have b: "replay_round ex_params ?E 3 (ex_replay ''X0E1aD0'' 2 ''____'' None)
     = Continue (ex_replay ''X0E1aD0'' 5 ''a___'' None)"
    by (simp add: ex_logtypes)
  from a b show ?thesis by simp
qed

section \<open>Replaying: failures\<close>











section \<open>Replaying: collection items and their elements\<close>





lemma ref_inv_same:
  "ref_inv st \<Longrightarrow> r_calls st1 = r_calls st \<Longrightarrow> last_coll_it st1 = last_coll_it st \<Longrightarrow> ref_inv st1"
  by (simp add: ref_inv_def)








end
